theory Spec2Isabelle
  imports Complex_Main "HOL-Library.Word"
begin

section \<open>The flood fill of translucify.js\<close>

text \<open>
  The development embeds \<^verbatim>\<open>floodFill\<close> (src/translucify.js, lines 77 to 155) and its
  closure \<^verbatim>\<open>matchTolerance\<close>. The pixel buffer \<^verbatim>\<open>imageData.data\<close> is a
  \<^verbatim>\<open>Uint8ClampedArray\<close>: a list of 8-bit words. Coordinates, the canvas dimensions and
  \<^verbatim>\<open>pixelPos\<close> are JavaScript numbers that only ever hold integers here: \<open>int\<close>.
  The tolerance and the six bounds are JavaScript numbers too; they are modelled as exact
  rationals (no IEEE rounding), and a bound computed from \<^verbatim>\<open>undefined\<close> is \<^verbatim>\<open>NaN\<close>,
  modelled as \<open>None\<close>.
\<close>

subsection \<open>The buffer\<close>

type_synonym buffer = "8 word list"

text \<open>\<^verbatim>\<open>imageData.data[i]\<close>: a read outside the array gives \<^verbatim>\<open>undefined\<close>.\<close>

definition channel :: "buffer \<Rightarrow> int \<Rightarrow> 8 word option" where
  "channel d i = (if 0 \<le> i \<and> i < int (length d) then Some (d ! nat i) else None)"

text \<open>\<^verbatim>\<open>imageData.data[i] = v\<close>: a typed array ignores a write outside its range.\<close>

definition store :: "buffer \<Rightarrow> int \<Rightarrow> 8 word \<Rightarrow> buffer" where
  "store d i v = (if 0 \<le> i \<and> i < int (length d) then d[nat i := v] else d)"

subsection \<open>Bounds and the tolerance predicate\<close>

record bounds =
  rMax :: "rat option"
  gMax :: "rat option"
  bMax :: "rat option"
  rMin :: "rat option"
  gMin :: "rat option"
  bMin :: "rat option"

text \<open>\<^verbatim>\<open>imageData.data[pixelPos] * f\<close>\<close>

definition scale :: "8 word option \<Rightarrow> rat \<Rightarrow> rat option" where
  "scale c f = (case c of None \<Rightarrow> None | Some v \<Rightarrow> Some (of_int (uint v) * f))"

text \<open>Lines 84 to 90.\<close>

definition seedBounds :: "buffer \<Rightarrow> int \<Rightarrow> rat \<Rightarrow> bounds" where
  "seedBounds d pixelPos tolerance =
     \<lparr> rMax = scale (channel d pixelPos) (1 + tolerance),
       gMax = scale (channel d (pixelPos + 1)) (1 + tolerance),
       bMax = scale (channel d (pixelPos + 2)) (1 + tolerance),
       rMin = scale (channel d pixelPos) (1 - tolerance),
       gMin = scale (channel d (pixelPos + 1)) (1 - tolerance),
       bMin = scale (channel d (pixelPos + 2)) (1 - tolerance) \<rparr>"

text \<open>\<^verbatim>\<open>c >= lo\<close> and \<^verbatim>\<open>c <= hi\<close>: false as soon as a side is \<^verbatim>\<open>undefined\<close> or \<^verbatim>\<open>NaN\<close>.\<close>

definition geq :: "8 word option \<Rightarrow> rat option \<Rightarrow> bool" where
  "geq c lo = (case c of None \<Rightarrow> False
               | Some v \<Rightarrow> (case lo of None \<Rightarrow> False | Some l \<Rightarrow> l \<le> of_int (uint v)))"

definition leq :: "8 word option \<Rightarrow> rat option \<Rightarrow> bool" where
  "leq c hi = (case c of None \<Rightarrow> False
               | Some v \<Rightarrow> (case hi of None \<Rightarrow> False | Some u \<Rightarrow> of_int (uint v) \<le> u))"

text \<open>The value \<^verbatim>\<open>matchTolerance(pixelIndex)\<close> returns on the buffer \<open>d\<close> (lines 98 to 102).\<close>

definition matches :: "bounds \<Rightarrow> buffer \<Rightarrow> int \<Rightarrow> bool" where
  "matches bs d pixelIndex =
     (let r = channel d pixelIndex;
          g = channel d (pixelIndex + 1);
          b = channel d (pixelIndex + 2)
      in (geq r (rMin bs) \<and> leq r (rMax bs)) \<and> (geq g (gMin bs) \<and> leq g (gMax bs))
         \<and> (geq b (bMin bs) \<and> leq b (bMax bs)))"

subsection \<open>The state of a fill\<close>

text \<open>
  \<open>data\<close> is \<^verbatim>\<open>imageData.data\<close> and \<open>pixelStack\<close> the array of pending coordinates, its
  top at the head of the list. The other three fields record the effects of the run and
  influence nothing: \<open>reads\<close> lists the buffer indices read (latest first), \<open>writes\<close> the
  first index of every pixel zeroed (latest first), \<open>pushes\<close> counts the calls of
  \<^verbatim>\<open>pixelStack.push\<close>.
\<close>

record fstate =
  data :: buffer
  pixelStack :: "(int \<times> int) list"
  reads :: "int list"
  writes :: "int list"
  pushes :: nat

definition matchTolerance :: "bounds \<Rightarrow> fstate \<Rightarrow> int \<Rightarrow> bool \<times> fstate" where
  "matchTolerance bs s pixelIndex =
     (matches bs (data s) pixelIndex,
      s\<lparr>reads := (pixelIndex + 2) # (pixelIndex + 1) # pixelIndex # reads s\<rparr>)"

definition push :: "int \<times> int \<Rightarrow> fstate \<Rightarrow> fstate" where
  "push q s = s\<lparr>pixelStack := q # pixelStack s, pushes := Suc (pushes s)\<rparr>"

text \<open>Lines 118 to 121.\<close>

definition zeroPixel :: "int \<Rightarrow> fstate \<Rightarrow> fstate" where
  "zeroPixel pixelPos s =
     s\<lparr>data := store (store (store (store (data s) pixelPos 0) (pixelPos + 1) 0)
                     (pixelPos + 2) 0) (pixelPos + 3) 0,
       writes := pixelPos # writes s\<rparr>"

text \<open>Lines 123 to 133; the result is the new \<^verbatim>\<open>reachLeft\<close> and the state.\<close>

definition lookLeft :: "bounds \<Rightarrow> int \<Rightarrow> int \<Rightarrow> int \<Rightarrow> bool \<Rightarrow> fstate \<Rightarrow> bool \<times> fstate" where
  "lookLeft bs x y pixelPos reachLeft s =
     (if x > 0 then
        (case matchTolerance bs s (pixelPos - 4) of (m, s1) \<Rightarrow>
           if m then (if \<not> reachLeft then (True, push (x - 1, y) s1) else (reachLeft, s1))
           else if reachLeft then (False, s1)
           else (reachLeft, s1))
      else (reachLeft, s))"

text \<open>Lines 134 to 150; the result is the new \<^verbatim>\<open>reachLeft\<close>, the new \<^verbatim>\<open>reachRight\<close> and the state.\<close>

definition lookRight ::
  "bounds \<Rightarrow> int \<Rightarrow> int \<Rightarrow> int \<Rightarrow> int \<Rightarrow> bool \<Rightarrow> bool \<Rightarrow> fstate \<Rightarrow> bool \<times> bool \<times> fstate" where
  "lookRight bs width x y pixelPos reachLeft reachRight s =
     (if x < width - 1 then
        (case matchTolerance bs s (pixelPos + 4) of (m, s1) \<Rightarrow>
           if m then (if \<not> reachRight then (reachLeft, True, push (x + 1, y) s1)
                      else (reachLeft, reachRight, s1))
           else
             (case matchTolerance bs s1 (pixelPos + 4 - (width * 4)) of (m', s2) \<Rightarrow>
                if m' then (if \<not> reachLeft then (True, reachRight, push (x + 1, y - 1) s2)
                            else (reachLeft, reachRight, s2))
                else if reachRight then (reachLeft, False, s2)
                else (reachLeft, reachRight, s2)))
      else (reachLeft, reachRight, s))"

text \<open>The body of the second inner loop without its last line (lines 118 to 150).\<close>

definition visit ::
  "bounds \<Rightarrow> int \<Rightarrow> int \<Rightarrow> int \<Rightarrow> int \<Rightarrow> bool \<Rightarrow> bool \<Rightarrow> fstate \<Rightarrow> bool \<times> bool \<times> fstate" where
  "visit bs width x y pixelPos reachLeft reachRight s =
     (case lookLeft bs x y pixelPos reachLeft (zeroPixel pixelPos s) of (reachLeft', s1) \<Rightarrow>
        lookRight bs width x y pixelPos reachLeft' reachRight s1)"

text \<open>
  Lines 110 to 112: \<^verbatim>\<open>while (y-- >= 0 && matchTolerance(pixelPos)) pixelPos -= width * 4\<close>.
  \<open>y\<close> is decremented by every evaluation of the condition, also by the last one; the
  result is \<open>y\<close>, \<open>pixelPos\<close> and the state when the loop is left.
\<close>

function upWalk :: "bounds \<Rightarrow> int \<Rightarrow> int \<Rightarrow> int \<Rightarrow> fstate \<Rightarrow> int \<times> int \<times> fstate" where
  "upWalk bs width y pixelPos s =
     (if y \<ge> 0 then
        (case matchTolerance bs s pixelPos of (m, s1) \<Rightarrow>
           if m then upWalk bs width (y - 1) (pixelPos - width * 4) s1
           else (y - 1, pixelPos, s1))
      else (y - 1, pixelPos, s))"
  by pat_completeness auto
termination
  by (relation "measure (\<lambda>(bs, width, y, pixelPos, s). nat (y + 1))") auto

declare upWalk.simps [simp del]

text \<open>
  Lines 117 to 152: \<^verbatim>\<open>while (y++ < height - 1 && matchTolerance(pixelPos)) { ... }\<close>.
  The body runs with \<open>y\<close> already incremented.
\<close>

function downWalk ::
  "bounds \<Rightarrow> int \<Rightarrow> int \<Rightarrow> int \<Rightarrow> int \<Rightarrow> int \<Rightarrow> bool \<Rightarrow> bool \<Rightarrow> fstate \<Rightarrow> fstate" where
  "downWalk bs width height x y pixelPos reachLeft reachRight s =
     (if y < height - 1 then
        (case matchTolerance bs s pixelPos of (m, s1) \<Rightarrow>
           if m then
             (case visit bs width x (y + 1) pixelPos reachLeft reachRight s1 of
                (reachLeft', reachRight', s2) \<Rightarrow>
                  downWalk bs width height x (y + 1) (pixelPos + width * 4)
                    reachLeft' reachRight' s2)
           else s1)
      else s)"
  by pat_completeness auto
termination
  by (relation "measure (\<lambda>(bs, width, height, x, y, pixelPos, rl, rr, s). nat (height - 1 - y))")
     auto

declare downWalk.simps [simp del]

text \<open>One turn of the outer loop after the pop (lines 107 to 152).\<close>

definition scanColumn :: "bounds \<Rightarrow> int \<Rightarrow> int \<Rightarrow> int \<Rightarrow> int \<Rightarrow> fstate \<Rightarrow> fstate" where
  "scanColumn bs width height x y s =
     (case upWalk bs width y ((y * width + x) * 4) s of (y1, pixelPos1, s1) \<Rightarrow>
        downWalk bs width height x (y1 + 1) (pixelPos1 + width * 4) False False s1)"

text \<open>
  Lines 105 to 153. The loop need not end; the value \<open>None\<close> stands for a run that never
  leaves it.
\<close>

partial_function (option) fillLoop :: "bounds \<Rightarrow> int \<Rightarrow> int \<Rightarrow> fstate \<Rightarrow> fstate option" where
  "fillLoop bs width height s =
     (case pixelStack s of
        [] \<Rightarrow> Some s
      | (x, y) # rest \<Rightarrow>
          fillLoop bs width height (scanColumn bs width height x y (s\<lparr>pixelStack := rest\<rparr>)))"

declare fillLoop.simps [code]

text \<open>
  \<^verbatim>\<open>floodFill(x, y, context, tolerance)\<close>, where the canvas of \<open>context\<close> is
  \<open>width\<close> by \<open>height\<close> and \<open>d\<close> is the buffer \<^verbatim>\<open>getImageData\<close> returns. The \<open>data\<close>
  of the final state is what \<^verbatim>\<open>putImageData\<close> writes back.
\<close>

definition initState :: "int \<Rightarrow> int \<Rightarrow> int \<Rightarrow> buffer \<Rightarrow> fstate" where
  "initState x y width d =
     (let pixelPos = (y * width + x) * 4 in
      \<lparr> data = d, pixelStack = [(x, y)],
        reads = [pixelPos + 2, pixelPos + 1, pixelPos, pixelPos + 2, pixelPos + 1, pixelPos],
        writes = [], pushes = 0 \<rparr>)"

definition floodFill :: "int \<Rightarrow> int \<Rightarrow> int \<Rightarrow> int \<Rightarrow> buffer \<Rightarrow> rat \<Rightarrow> fstate option" where
  "floodFill x y width height d tolerance =
     fillLoop (seedBounds d ((y * width + x) * 4) tolerance) width height
       (initState x y width d)"

subsection \<open>Pixels and regions\<close>

text \<open>The index of the first channel of the pixel in column \<open>fst q\<close> and row \<open>snd q\<close>.\<close>

definition posOf :: "int \<Rightarrow> int \<times> int \<Rightarrow> int" where
  "posOf width q = (snd q * width + fst q) * 4"

definition inGrid :: "int \<Rightarrow> int \<Rightarrow> int \<times> int \<Rightarrow> bool" where
  "inGrid width height q = (0 \<le> fst q \<and> fst q < width \<and> 0 \<le> snd q \<and> snd q < height)"

text \<open>The four channels of a pixel, red first.\<close>

definition pixel :: "buffer \<Rightarrow> int \<Rightarrow> int \<times> int \<Rightarrow> 8 word option list" where
  "pixel d width q = map (\<lambda>k. channel d (posOf width q + k)) [0, 1, 2, 3]"

text \<open>
  A valid input: the buffer holds four bytes for each pixel of the canvas, the seed lies
  on the canvas and the tolerance is not negative.
\<close>

definition validInput :: "int \<Rightarrow> int \<Rightarrow> buffer \<Rightarrow> int \<Rightarrow> int \<Rightarrow> rat \<Rightarrow> bool" where
  "validInput width height d x y tolerance \<longleftrightarrow>
     int (length d) = width * height * 4 \<and> inGrid width height (x, y) \<and> 0 \<le> tolerance"

text \<open>The pixels a run has zeroed: those whose first index it has logged as written.\<close>

definition zeroed :: "int \<Rightarrow> int \<Rightarrow> fstate \<Rightarrow> (int \<times> int) set" where
  "zeroed width height s = {q. inGrid width height q \<and> posOf width q \<in> set (writes s)}"

text \<open>The pixels of the canvas whose colour in \<open>d\<close> lies within the bounds.\<close>

definition matching :: "bounds \<Rightarrow> int \<Rightarrow> int \<Rightarrow> buffer \<Rightarrow> (int \<times> int) set" where
  "matching bs width height d = {q. inGrid width height q \<and> matches bs d (posOf width q)}"

text \<open>
  The moves of the fill from a pixel: to one of its four neighbours, or diagonally to
  \<open>(x + 1, y - 1)\<close>.
\<close>

definition fillStep :: "int \<times> int \<Rightarrow> int \<times> int \<Rightarrow> bool" where
  "fillStep p q \<longleftrightarrow>
     q = (fst p, snd p - 1) \<or> q = (fst p, snd p + 1) \<or> q = (fst p - 1, snd p) \<or>
     q = (fst p + 1, snd p) \<or> q = (fst p + 1, snd p - 1)"

text \<open>The pixels of \<open>Z\<close> that a chain of such moves inside \<open>Z\<close> reaches from the seed.\<close>

inductive_set region :: "(int \<times> int) set \<Rightarrow> int \<times> int \<Rightarrow> (int \<times> int) set"
  for Z :: "(int \<times> int) set" and seed :: "int \<times> int" where
  seed: "seed \<in> Z \<Longrightarrow> seed \<in> region Z seed"
| step: "p \<in> region Z seed \<Longrightarrow> fillStep p q \<Longrightarrow> q \<in> Z \<Longrightarrow> q \<in> region Z seed"

text \<open>A zeroed pixel, whose red, green and blue are 0, lies within the bounds.\<close>

definition zeroMatches :: "bounds \<Rightarrow> bool" where
  "zeroMatches bs = matches bs [0, 0, 0, 0] 0"

text \<open>Red, green and blue of a pixel are all 0.\<close>

definition black :: "buffer \<Rightarrow> int \<Rightarrow> int \<times> int \<Rightarrow> bool" where
  "black d width q \<longleftrightarrow> take 3 (pixel d width q) = [Some 0, Some 0, Some 0]"

subsection \<open>The buffers of the scenarios and examples\<close>

definition gray :: buffer where
  "gray = [200, 200, 200, 255]"

definition blue :: buffer where
  "blue = [0, 0, 255, 255]"

definition uniform4 :: buffer where
  "uniform4 = concat (replicate 16 gray)"

definition checker4 :: buffer where
  "checker4 = concat [gray, blue, gray, blue,
                      blue, gray, blue, gray,
                      gray, blue, gray, blue,
                      blue, gray, blue, gray]"

text \<open>Two pixels side by side, gray then blue.\<close>

definition grayBlue :: buffer where
  "grayBlue = [200, 200, 200, 255, 0, 0, 255, 255]"

text \<open>Two opaque black pixels.\<close>

definition blackBlack :: buffer where
  "blackBlack = [0, 0, 0, 255, 0, 0, 0, 255]"


text \<open>
  Two columns and three rows: the left column gray, the right one gray, blue, gray.
\<close>

definition notch :: buffer where
  "notch = [200, 200, 200, 255, 200, 200, 200, 255,
            200, 200, 200, 255, 0, 0, 255, 255,
            200, 200, 200, 255, 200, 200, 200, 255]"

text \<open>The same with a lighter gray (220, 220, 220) at the top right.\<close>

definition notchLight :: buffer where
  "notchLight = [200, 200, 200, 255, 220, 220, 220, 255,
                 200, 200, 200, 255, 0, 0, 255, 255,
                 200, 200, 200, 255, 200, 200, 200, 255]"

subsection \<open>Auxiliary notions of the proofs\<close>

text \<open>The buffer after lines 118 to 121 at \<open>p\<close>.\<close>

definition clear4 :: "buffer \<Rightarrow> int \<Rightarrow> buffer" where
  "clear4 d p = store (store (store (store d p 0) (p + 1) 0) (p + 2) 0) (p + 3) 0"

text \<open>
  What holds of the state throughout a run on the buffer \<open>d0\<close>: the buffer keeps its
  length, every write is at a pixel of the canvas, a written pixel matched in \<open>d0\<close> and is
  all zero, any other pixel is as in \<open>d0\<close>, and the stack holds pixels of the canvas.
\<close>

definition frame :: "bounds \<Rightarrow> int \<Rightarrow> int \<Rightarrow> buffer \<Rightarrow> fstate \<Rightarrow> bool" where
  "frame bs w h d0 s \<longleftrightarrow>
     length (data s) = length d0 \<and>
     set (writes s) \<subseteq> posOf w ` {q. inGrid w h q} \<and>
     (\<forall>q. inGrid w h q \<longrightarrow>
        (if posOf w q \<in> set (writes s)
         then matches bs d0 (posOf w q) \<and>
              (\<forall>k\<in>{0, 1, 2, 3}. channel (data s) (posOf w q + k) = Some 0)
         else (\<forall>k\<in>{0, 1, 2, 3}. channel (data s) (posOf w q + k) = channel d0 (posOf w q + k)))) \<and>
     (\<forall>q\<in>set (pixelStack s). inGrid w h q)"

text \<open>What the visit of \<open>(x, r)\<close> may push: a neighbour that matches in \<open>d\<close>.\<close>

definition pushable :: "bounds \<Rightarrow> int \<Rightarrow> buffer \<Rightarrow> int \<Rightarrow> int \<Rightarrow> int \<times> int \<Rightarrow> bool" where
  "pushable bs w d x r q \<longleftrightarrow>
     (q = (x - 1, r) \<and> 0 < x \<or> q = (x + 1, r) \<and> x < w - 1 \<or> q = (x + 1, r - 1) \<and> x < w - 1)
     \<and> matches bs d (posOf w q)"

text \<open>The rows \<open>r\<close> to \<open>y0\<close> of column \<open>x\<close>.\<close>

definition pend :: "int \<Rightarrow> int \<Rightarrow> int \<Rightarrow> (int \<times> int) set" where
  "pend x r y0 = {q. fst q = x \<and> r \<le> snd q \<and> snd q \<le> y0}"

text \<open>
  The zeroed pixels together with the pending ones \<open>P\<close> are reached from the seed, the
  seed is among them or on the stack, and every pixel on the stack is attached to them
  and is zeroed or still matches.
\<close>

definition linked :: "bounds \<Rightarrow> int \<Rightarrow> int \<Rightarrow> int \<times> int \<Rightarrow> (int \<times> int) set \<Rightarrow> fstate \<Rightarrow> bool" where
  "linked bs w h seed P s \<longleftrightarrow>
     zeroed w h s \<union> P \<subseteq> region (zeroed w h s \<union> P) seed \<and>
     (seed \<in> zeroed w h s \<union> P \<or> seed \<in> set (pixelStack s)) \<and>
     (\<forall>q\<in>set (pixelStack s). q \<in> region (insert q (zeroed w h s \<union> P)) seed \<and>
         (q \<in> zeroed w h s \<or> matches bs (data s) (posOf w q)))"

text \<open>The walk down column \<open>x\<close> after the pop of \<open>(x, y0)\<close>, about to test row \<open>r\<close>.\<close>

definition walking ::
  "bounds \<Rightarrow> int \<Rightarrow> int \<Rightarrow> buffer \<Rightarrow> int \<times> int \<Rightarrow> int \<Rightarrow> int \<Rightarrow> int \<Rightarrow> fstate \<Rightarrow> bool" where
  "walking bs w h d0 seed x y0 r s \<longleftrightarrow>
     frame bs w h d0 s \<and> 0 \<le> r \<and> linked bs w h seed (pend x r y0) s \<and>
     (\<forall>r'. r \<le> r' \<and> r' \<le> y0 \<longrightarrow> matches bs (data s) (posOf w (x, r'))) \<and>
     (r \<le> y0 \<or> (x, r - 1) \<in> zeroed w h s)"

text \<open>
  Every push is charged to a pixel of the canvas of its own: a push to the left to the
  pixel just zeroed, a push to the right or to the diagonal to the right neighbour of
  the pixel just zeroed. A charged pixel is zeroed or has a zeroed left neighbour, and
  no pixel above a zeroed one matches.
\<close>

definition charged :: "bounds \<Rightarrow> int \<Rightarrow> int \<Rightarrow> fstate \<Rightarrow> (int \<times> int) set \<Rightarrow> bool" where
  "charged bs w h s C \<longleftrightarrow>
     C \<subseteq> {q. inGrid w h q} \<and> card C = pushes s \<and>
     (\<forall>c\<in>C. c \<in> zeroed w h s \<or> (fst c - 1, snd c) \<in> zeroed w h s) \<and>
     (\<forall>q\<in>zeroed w h s. \<not> matches bs (data s) (posOf w (fst q, snd q - 1)))"

text \<open>The states of the run on two black pixels.\<close>

definition pingPong :: "fstate \<Rightarrow> bool" where
  "pingPong s \<longleftrightarrow>
     data s = [0, 0, 0, 255, 0, 0, 0, 255] \<and> pixelStack s = [(0, 0)] \<or>
     data s = [0, 0, 0, 0, 0, 0, 0, 255] \<and> pixelStack s = [(1, 0)] \<or>
     data s = [0, 0, 0, 0, 0, 0, 0, 0] \<and> pixelStack s = [(0, 0)] \<or>
     data s = [0, 0, 0, 0, 0, 0, 0, 0] \<and> pixelStack s = [(1, 0)]"

section \<open>Running the model\<close>

lemma upWalk_stop: "\<not> y \<ge> 0 \<Longrightarrow> upWalk bs w y p s = (y - 1, p, s)"
  by (subst upWalk.simps) simp
lemma upWalk_nomatch: "y \<ge> 0 \<Longrightarrow> \<not> matches bs (data s) p \<Longrightarrow>
   upWalk bs w y p s = (y - 1, p, s\<lparr>reads := (p + 2) # (p + 1) # p # reads s\<rparr>)"
  by (subst upWalk.simps) (simp add: matchTolerance_def)
lemma upWalk_go: "y \<ge> 0 \<Longrightarrow> matches bs (data s) p \<Longrightarrow>
   upWalk bs w y p s = upWalk bs w (y - 1) (p - w * 4) (s\<lparr>reads := (p + 2) # (p + 1) # p # reads s\<rparr>)"
  by (subst upWalk.simps) (simp add: matchTolerance_def)

lemma downWalk_stop: "\<not> y < h - 1 \<Longrightarrow> downWalk bs w h x y p rl rr s = s"
  by (subst downWalk.simps) simp
lemma downWalk_nomatch: "y < h - 1 \<Longrightarrow> \<not> matches bs (data s) p \<Longrightarrow>
   downWalk bs w h x y p rl rr s = s\<lparr>reads := (p + 2) # (p + 1) # p # reads s\<rparr>"
  by (subst downWalk.simps) (simp add: matchTolerance_def)
lemma downWalk_go: "y < h - 1 \<Longrightarrow> matches bs (data s) p \<Longrightarrow>
   downWalk bs w h x y p rl rr s =
     (case visit bs w x (y + 1) p rl rr (s\<lparr>reads := (p + 2) # (p + 1) # p # reads s\<rparr>) of
        (rl', rr', s2) \<Rightarrow> downWalk bs w h x (y + 1) (p + w * 4) rl' rr' s2)"
  by (subst downWalk.simps) (simp add: matchTolerance_def)

lemma fillLoop_stop: "pixelStack s = [] \<Longrightarrow> fillLoop bs w h s = Some s"
  by (subst fillLoop.simps) simp
lemma fillLoop_go: "pixelStack s \<noteq> [] \<Longrightarrow> fillLoop bs w h s =
   fillLoop bs w h (scanColumn bs w h (fst (hd (pixelStack s))) (snd (hd (pixelStack s)))
                     (s\<lparr>pixelStack := tl (pixelStack s)\<rparr>))"
  by (subst fillLoop.simps) (auto split: list.splits)

lemmas run_simps = floodFill_def initState_def seedBounds_def scanColumn_def
  upWalk_stop upWalk_nomatch upWalk_go downWalk_stop downWalk_nomatch downWalk_go
  fillLoop_stop fillLoop_go
  visit_def lookLeft_def lookRight_def zeroPixel_def push_def matchTolerance_def
  matches_def channel_def store_def geq_def leq_def scale_def Let_def

section \<open>Buffer, geometry and the loops\<close>

lemma length_store [simp]: "length (store d i v) = length d"
  by (simp add: store_def)

lemma channel_store:
  "channel (store d i v) j = (if j = i \<and> 0 \<le> i \<and> i < int (length d) then Some v else channel d j)"
  by (auto simp: channel_def store_def nth_list_update)

lemma length_clear4 [simp]: "length (clear4 d p) = length d"
  by (simp add: clear4_def)

lemma channel_clear4:
  "channel (clear4 d p) j =
     (if p \<le> j \<and> j \<le> p + 3 \<and> 0 \<le> j \<and> j < int (length d) then Some 0 else channel d j)"
  by (auto simp: clear4_def channel_store)

lemma matches_cong:
  "channel d i = channel d' i \<Longrightarrow> channel d (i + 1) = channel d' (i + 1) \<Longrightarrow>
   channel d (i + 2) = channel d' (i + 2) \<Longrightarrow> matches bs d i = matches bs d' i"
  by (simp add: matches_def)

lemma matches_range: "matches bs d i \<Longrightarrow> 0 \<le> i \<and> i + 2 < int (length d)"
  by (auto simp: matches_def Let_def geq_def channel_def split: if_splits option.splits)

lemma posOf_simps:
  "posOf w (x, r) + w * 4 = posOf w (x, r + 1)"
  "posOf w (x, r) - w * 4 = posOf w (x, r - 1)"
  "posOf w (x, r) - 4 = posOf w (x - 1, r)"
  "posOf w (x, r) + 4 = posOf w (x + 1, r)"
  "posOf w (x, r) + 4 - w * 4 = posOf w (x + 1, r - 1)"
  by (simp_all add: posOf_def algebra_simps)

lemma posOf_inj:
  assumes "0 \<le> x" "x < w" "0 \<le> x'" "x' < w" "posOf w (x, y) = posOf w (x', y')"
  shows "x = x' \<and> y = y'"
proof -
  from assms have e: "y * w + x = y' * w + x'" by (simp add: posOf_def)
  have "(y * w + x) mod w = x" "(y' * w + x') mod w = x'"
    using assms by simp_all
  with e have x: "x = x'" by simp
  have "(y * w + x) div w = y" "(y' * w + x') div w = y'"
    using assms by simp_all
  with e have "y = y'" by simp
  with x show ?thesis by simp
qed

lemma posOf_bounds:
  assumes "inGrid w h (x, y)"
  shows "0 \<le> posOf w (x, y) \<and> posOf w (x, y) + 3 < 4 * w * h"
proof -
  from assms have a: "0 \<le> x" "x < w" "0 \<le> y" "y < h" by (simp_all add: inGrid_def)
  then have "y + 1 \<le> h" by simp
  then have "(y + 1) * w \<le> h * w" using a by (intro mult_right_mono) simp_all
  then have "y * w + x < w * h" using a by (simp add: algebra_simps)
  moreover have "0 \<le> y * w" using a by simp
  ultimately show ?thesis using a by (simp add: posOf_def)
qed

lemma posOf_row:
  assumes "0 \<le> x" "x < w" "0 \<le> posOf w (x, y)" "posOf w (x, y) < 4 * w * h"
  shows "0 \<le> y \<and> y < h"
proof -
  have w: "0 \<le> w" using assms by simp
  from assms have b: "0 \<le> y * w + x" "y * w + x < h * w"
    by (simp_all add: posOf_def algebra_simps)
  have "0 \<le> y"
  proof (rule ccontr)
    assume "\<not> 0 \<le> y"
    then have "y + 1 \<le> 0" by simp
    then have "(y + 1) * w \<le> 0 * w" using w by (intro mult_right_mono) simp_all
    then have "y * w + w \<le> 0" by (simp add: algebra_simps)
    then show False using b assms by linarith
  qed
  moreover have "y < h"
  proof (rule ccontr)
    assume "\<not> y < h"
    then have "h \<le> y" by simp
    then have "h * w \<le> y * w" using w by (intro mult_right_mono) simp_all
    then show False using b assms by linarith
  qed
  ultimately show ?thesis by simp
qed

lemma lookLeft_effect:
  assumes "lookLeft bs x r p rl s = (rl', s')"
  shows "data s' = data s \<and> writes s' = writes s \<and>
         (\<exists>ls. pixelStack s' = ls @ pixelStack s \<and> pushes s' = pushes s + length ls \<and>
               (ls = [] \<or> (ls = [(x - 1, r)] \<and> 0 < x \<and> matches bs (data s) (p - 4))))"
  using assms
  by (auto simp: lookLeft_def matchTolerance_def push_def split: if_splits)

lemma lookRight_effect:
  assumes "lookRight bs w x r p rl rr s = (rl', rr', s')"
  shows "data s' = data s \<and> writes s' = writes s \<and>
         (\<exists>rs. pixelStack s' = rs @ pixelStack s \<and> pushes s' = pushes s + length rs \<and>
               (rs = [] \<or> (rs = [(x + 1, r)] \<and> x < w - 1 \<and> matches bs (data s) (p + 4))
                \<or> (rs = [(x + 1, r - 1)] \<and> x < w - 1 \<and> \<not> matches bs (data s) (p + 4)
                    \<and> matches bs (data s) (p + 4 - w * 4))))"
  using assms
  by (auto simp: lookRight_def matchTolerance_def push_def split: if_splits)

lemma visit_effect:
  assumes "visit bs w x r p rl rr s = (rl', rr', s')"
  shows "data s' = clear4 (data s) p \<and> writes s' = p # writes s \<and>
         (\<exists>ls rs. pixelStack s' = rs @ ls @ pixelStack s \<and>
               pushes s' = pushes s + length rs + length ls \<and>
               (ls = [] \<or> (ls = [(x - 1, r)] \<and> 0 < x \<and> matches bs (clear4 (data s) p) (p - 4))) \<and>
               (rs = [] \<or> (rs = [(x + 1, r)] \<and> x < w - 1 \<and> matches bs (clear4 (data s) p) (p + 4))
                \<or> (rs = [(x + 1, r - 1)] \<and> x < w - 1 \<and> \<not> matches bs (clear4 (data s) p) (p + 4)
                    \<and> matches bs (clear4 (data s) p) (p + 4 - w * 4))))"
proof -
  obtain rl1 s1 where l: "lookLeft bs x r p rl (zeroPixel p s) = (rl1, s1)"
    by (cases "lookLeft bs x r p rl (zeroPixel p s)")
  with assms have rt: "lookRight bs w x r p rl1 rr s1 = (rl', rr', s')"
    by (simp add: visit_def)
  have z: "data (zeroPixel p s) = clear4 (data s) p" "writes (zeroPixel p s) = p # writes s"
    "pixelStack (zeroPixel p s) = pixelStack s" "pushes (zeroPixel p s) = pushes s"
    by (simp_all add: zeroPixel_def clear4_def)
  from lookLeft_effect[OF l] obtain ls where
    l1: "data s1 = clear4 (data s) p" "writes s1 = p # writes s"
        "pixelStack s1 = ls @ pixelStack s" "pushes s1 = pushes s + length ls"
        "ls = [] \<or> (ls = [(x - 1, r)] \<and> 0 < x \<and> matches bs (clear4 (data s) p) (p - 4))"
    unfolding z by blast
  from lookRight_effect[OF rt] obtain rs where
    r1: "data s' = data s1" "writes s' = writes s1"
        "pixelStack s' = rs @ pixelStack s1" "pushes s' = pushes s1 + length rs"
        "rs = [] \<or> (rs = [(x + 1, r)] \<and> x < w - 1 \<and> matches bs (data s1) (p + 4))
                \<or> (rs = [(x + 1, r - 1)] \<and> x < w - 1 \<and> \<not> matches bs (data s1) (p + 4)
                    \<and> matches bs (data s1) (p + 4 - w * 4))"
    by blast
  show ?thesis
    using l1 r1 by (intro conjI exI[of _ ls] exI[of _ rs]) simp_all
qed

text \<open>The upward walk from row \<open>y\<close> of column \<open>x\<close>.\<close>

lemma upWalk_spec:
  assumes "upWalk bs w y (posOf w (x, y)) s = (y', p', s')"
  shows "data s' = data s \<and> writes s' = writes s \<and> pixelStack s' = pixelStack s \<and>
         pushes s' = pushes s \<and> p' = posOf w (x, y' + 1) \<and> y' < y \<and> (-1 \<le> y \<longrightarrow> -2 \<le> y') \<and>
         (\<forall>r. y' + 1 < r \<and> r \<le> y \<longrightarrow> matches bs (data s) (posOf w (x, r))) \<and>
         (y' + 1 < 0 \<or> \<not> matches bs (data s) (posOf w (x, y' + 1)))"
  using assms
proof (induction bs w y "posOf w (x, y)" s arbitrary: y' p' s' rule: upWalk.induct)
  case (1 bs w y s)
  show ?case
  proof (cases "y \<ge> 0 \<and> matches bs (data s) (posOf w (x, y))")
    case True
    let ?s1 = "s\<lparr>reads := (posOf w (x, y) + 2) # (posOf w (x, y) + 1) # posOf w (x, y) # reads s\<rparr>"
    have m: "matchTolerance bs s (posOf w (x, y)) = (True, ?s1)"
      using True by (simp add: matchTolerance_def)
    have rec: "upWalk bs w (y - 1) (posOf w (x, y - 1)) ?s1 = (y', p', s')"
      using "1.prems" True m by (subst (asm) upWalk.simps) (simp add: posOf_simps)
    have ih: "data s' = data ?s1 \<and> writes s' = writes ?s1 \<and> pixelStack s' = pixelStack ?s1 \<and>
         pushes s' = pushes ?s1 \<and> p' = posOf w (x, y' + 1) \<and> y' < y - 1 \<and> (-1 \<le> y - 1 \<longrightarrow> -2 \<le> y') \<and>
         (\<forall>r. y' + 1 < r \<and> r \<le> y - 1 \<longrightarrow> matches bs (data ?s1) (posOf w (x, r))) \<and>
         (y' + 1 < 0 \<or> \<not> matches bs (data ?s1) (posOf w (x, y' + 1)))"
      using "1.hyps"[OF _ m[symmetric] _ _ rec] True by (simp add: posOf_simps)
    have "\<And>r. y' + 1 < r \<Longrightarrow> r \<le> y \<Longrightarrow> matches bs (data s) (posOf w (x, r))"
    proof -
      fix r assume "y' + 1 < r" "r \<le> y"
      then consider "r = y" | "r \<le> y - 1" by linarith
      then show "matches bs (data s) (posOf w (x, r))"
        using ih True \<open>y' + 1 < r\<close> by cases auto
    qed
    then show ?thesis using ih True by auto
  next
    case False
    then show ?thesis using "1.prems"
      by (subst (asm) upWalk.simps) (auto simp: matchTolerance_def split: if_splits)
  qed
qed

lemma downWalk_rule_aux:
  assumes rd: "\<And>r s l. I r (s\<lparr>reads := l\<rparr>) = I r s"
    and step: "\<And>r s rl rr rl' rr' s'. I r s \<Longrightarrow> r < h \<Longrightarrow> matches bs (data s) (posOf w (x, r)) \<Longrightarrow>
                 visit bs w x r (posOf w (x, r)) rl rr s = (rl', rr', s') \<Longrightarrow> I (r + 1) s'"
    and fin: "\<And>r s. I r s \<Longrightarrow> \<not> (r < h \<and> matches bs (data s) (posOf w (x, r))) \<Longrightarrow> Q s"
    and i0: "I (y + 1) s" and p0: "p = posOf w (x, y + 1)"
  shows "Q (downWalk bs w h x y p rl rr s)"
  using assms
proof (induction bs w h x y p rl rr s rule: downWalk.induct)
  case (1 bs w h x y p rl rr s)
  note rd = "1.prems"(1) and step = "1.prems"(2) and fin = "1.prems"(3)
    and i0 = "1.prems"(4) and p0 = "1.prems"(5)
  let ?s1 = "s\<lparr>reads := (p + 2) # (p + 1) # p # reads s\<rparr>"
  have i1: "I (y + 1) ?s1" using i0 rd by simp
  show ?case
  proof (cases "y < h - 1 \<and> matches bs (data s) p")
    case False
    then have "downWalk bs w h x y p rl rr s = s \<or> downWalk bs w h x y p rl rr s = ?s1"
      by (subst downWalk.simps, simp add: matchTolerance_def)+
    moreover have "Q s" using fin[OF i0] False p0 by auto
    moreover have "Q ?s1" using fin[OF i1] False p0 by auto
    ultimately show ?thesis by auto
  next
    case True
    obtain rl' rr' s2 where v: "visit bs w x (y + 1) p rl rr ?s1 = (rl', rr', s2)"
      by (cases "visit bs w x (y + 1) p rl rr ?s1") auto
    have m: "matchTolerance bs s p = (True, ?s1)" using True by (simp add: matchTolerance_def)
    have i2: "I (y + 1 + 1) s2"
      using step[OF i1, of rl rr rl' rr' s2] True v p0 by simp
    have "downWalk bs w h x y p rl rr s = downWalk bs w h x (y + 1) (p + w * 4) rl' rr' s2"
      using True m v by (subst downWalk.simps) simp
    moreover have "Q (downWalk bs w h x (y + 1) (p + w * 4) rl' rr' s2)"
    proof (rule "1.IH"[OF _ m[symmetric] _ v[symmetric] refl])
      show "y < h - 1" using True by simp
      show True by simp
      show "\<And>r s l. I r (s\<lparr>reads := l\<rparr>) = I r s" by (rule rd)
      show "\<And>r s. I r s \<Longrightarrow> \<not> (r < h \<and> matches bs (data s) (posOf w (x, r))) \<Longrightarrow> Q s" by (rule fin)
      show "I (y + 1 + 1) s2" by (rule i2)
      show "p + w * 4 = posOf w (x, y + 1 + 1)" using p0 by (simp add: posOf_simps)
      show "\<And>r s rl rr rl' rr' s'. I r s \<Longrightarrow> r < h \<Longrightarrow> matches bs (data s) (posOf w (x, r)) \<Longrightarrow>
                 visit bs w x r (posOf w (x, r)) rl rr s = (rl', rr', s') \<Longrightarrow> I (r + 1) s'"
        by (rule step)
    qed
    ultimately show ?thesis by simp
  qed
qed

lemma downWalk_rule:
  assumes "I r s"
    and "\<And>r s l. I r (s\<lparr>reads := l\<rparr>) = I r s"
    and "\<And>r s rl rr rl' rr' s'. I r s \<Longrightarrow> r < h \<Longrightarrow> matches bs (data s) (posOf w (x, r)) \<Longrightarrow>
                 visit bs w x r (posOf w (x, r)) rl rr s = (rl', rr', s') \<Longrightarrow> I (r + 1) s'"
    and "\<And>r s. I r s \<Longrightarrow> \<not> (r < h \<and> matches bs (data s) (posOf w (x, r))) \<Longrightarrow> Q s"
  shows "Q (downWalk bs w h x (r - 1) (posOf w (x, r)) rl rr s)"
  by (rule downWalk_rule_aux[where I = I and Q = Q]) (use assms in simp_all)

lemma fillLoop_rule:
  assumes run: "fillLoop bs w h s = Some t" and i0: "I s"
    and step: "\<And>s x y rest. I s \<Longrightarrow> pixelStack s = (x, y) # rest \<Longrightarrow>
                 I (scanColumn bs w h x y (s\<lparr>pixelStack := rest\<rparr>))"
  shows "I t \<and> pixelStack t = []"
proof -
  have "b = bs \<and> w' = w \<and> h' = h \<and> I s' \<longrightarrow> I t' \<and> pixelStack t' = []"
    if "fillLoop b w' h' s' = Some t'" for b w' h' s' t'
    apply (rule fillLoop.raw_induct[where P = "\<lambda>b w' h' s' t'. b = bs \<and> w' = w \<and> h' = h \<and> I s' \<longrightarrow> I t' \<and> pixelStack t' = []", OF _ that])
    subgoal for f b1 w1 h1 s1 t1
      by (cases "pixelStack s1") (auto dest: step)
    done
  with run i0 show ?thesis by blast
qed

lemma fillLoop_total:
  assumes wf: "wf R" and i0: "I s"
    and step: "\<And>s x y rest. I s \<Longrightarrow> pixelStack s = (x, y) # rest \<Longrightarrow>
                 I (scanColumn bs w h x y (s\<lparr>pixelStack := rest\<rparr>))"
    and dec: "\<And>s x y rest. I s \<Longrightarrow> pixelStack s = (x, y) # rest \<Longrightarrow>
                 (scanColumn bs w h x y (s\<lparr>pixelStack := rest\<rparr>), s) \<in> R"
  shows "\<exists>t. fillLoop bs w h s = Some t"
  using wf i0
proof (induction s rule: wf_induct_rule)
  case (less s)
  show ?case
  proof (cases "pixelStack s")
    case Nil
    then show ?thesis by (subst fillLoop.simps) simp
  next
    case (Cons q rest)
    obtain x y where q: "q = (x, y)" by (cases q)
    let ?s' = "scanColumn bs w h x y (s\<lparr>pixelStack := rest\<rparr>)"
    have "\<exists>t. fillLoop bs w h ?s' = Some t"
      using less.IH[of ?s'] dec[OF less.prems] step[OF less.prems] Cons q by simp
    then show ?thesis using Cons q by (subst fillLoop.simps) simp
  qed
qed

lemma scanColumn_rule:
  assumes y0: "0 \<le> y"
    and rd: "\<And>r s l. I r (s\<lparr>reads := l\<rparr>) = I r s"
    and init: "\<And>k. 0 \<le> k \<Longrightarrow> k \<le> y + 1 \<Longrightarrow>
                 (\<forall>r. k \<le> r \<and> r \<le> y \<longrightarrow> matches bs (data s) (posOf w (x, r))) \<Longrightarrow>
                 (k = 0 \<or> \<not> matches bs (data s) (posOf w (x, k - 1))) \<Longrightarrow> I k s"
    and step: "\<And>r s rl rr rl' rr' s'. I r s \<Longrightarrow> r < h \<Longrightarrow> matches bs (data s) (posOf w (x, r)) \<Longrightarrow>
                 visit bs w x r (posOf w (x, r)) rl rr s = (rl', rr', s') \<Longrightarrow> I (r + 1) s'"
    and fin: "\<And>r s. I r s \<Longrightarrow> \<not> (r < h \<and> matches bs (data s) (posOf w (x, r))) \<Longrightarrow> Q s"
  shows "Q (scanColumn bs w h x y s)"
proof -
  obtain y1 p1 s1 where u: "upWalk bs w y (posOf w (x, y)) s = (y1, p1, s1)"
    by (cases "upWalk bs w y (posOf w (x, y)) s") auto
  note sp = upWalk_spec[OF u]
  let ?k = "y1 + 2"
  have d: "data s1 = data s" using sp by simp
  have "I ?k s"
  proof (rule init)
    show "0 \<le> ?k" using sp y0 by simp
    show "?k \<le> y + 1" using sp by simp
    show "\<forall>r. ?k \<le> r \<and> r \<le> y \<longrightarrow> matches bs (data s) (posOf w (x, r))" using sp by simp
    have lo: "-2 \<le> y1" using sp y0 by simp
    show "?k = 0 \<or> \<not> matches bs (data s) (posOf w (x, ?k - 1))"
    proof (cases "y1 + 1 < 0")
      case True
      with lo have "?k = 0" by simp
      then show ?thesis ..
    next
      case False
      then have "\<not> matches bs (data s) (posOf w (x, y1 + 1))" using sp by blast
      moreover have "?k - 1 = y1 + 1" by arith
      ultimately show ?thesis by metis
    qed
  qed
  moreover have "\<exists>l. s1 = s\<lparr>reads := l\<rparr>"
    using sp by (intro exI[of _ "reads s1"]) simp
  ultimately have i: "I ?k s1" using rd by auto
  have "Q (downWalk bs w h x (?k - 1) (posOf w (x, ?k)) False False s1)"
    by (rule downWalk_rule[where I = I, OF i rd step fin])
  moreover have "scanColumn bs w h x y s = downWalk bs w h x (?k - 1) (posOf w (x, ?k)) False False s1"
    using u sp by (simp add: scanColumn_def posOf_def algebra_simps)
  ultimately show ?thesis by simp
qed

section \<open>What a run writes\<close>

lemma frame_reads [simp]: "frame bs w h d0 (s\<lparr>reads := l\<rparr>) = frame bs w h d0 s"
  by (simp add: frame_def)

lemma posOf_apart:
  assumes "posOf w q \<noteq> posOf w q'" "k \<in> {0, 1, 2, 3}"
  shows "\<not> (posOf w q' \<le> posOf w q + k \<and> posOf w q + k \<le> posOf w q' + 3)"
proof -
  have "\<not> (b * 4 \<le> a * 4 + k \<and> a * 4 + k \<le> b * 4 + 3)"
    if "a * 4 \<noteq> b * 4" "k \<in> {0, 1, 2, 3}" for a b k :: int
    using that by auto
  from this[of "snd q * w + fst q" "snd q' * w + fst q'" k] assms
  show ?thesis by (simp add: posOf_def)
qed

lemma frame_pixel:
  assumes "frame bs w h d0 s" "inGrid w h q"
  shows "if posOf w q \<in> set (writes s)
         then matches bs d0 (posOf w q) \<and>
              (\<forall>k\<in>{0, 1, 2, 3}. channel (data s) (posOf w q + k) = Some 0)
         else (\<forall>k\<in>{0, 1, 2, 3}. channel (data s) (posOf w q + k) = channel d0 (posOf w q + k))"
  using assms unfolding frame_def by blast

lemma frameI:
  assumes "length (data s) = length d0" "set (writes s) \<subseteq> posOf w ` {q. inGrid w h q}"
    "\<And>q. inGrid w h q \<Longrightarrow>
        if posOf w q \<in> set (writes s)
         then matches bs d0 (posOf w q) \<and>
              (\<forall>k\<in>{0, 1, 2, 3}. channel (data s) (posOf w q + k) = Some 0)
         else (\<forall>k\<in>{0, 1, 2, 3}. channel (data s) (posOf w q + k) = channel d0 (posOf w q + k))"
    "\<And>q. q \<in> set (pixelStack s) \<Longrightarrow> inGrid w h q"
  shows "frame bs w h d0 s"
  unfolding frame_def using assms by blast

lemma frame_stack: "frame bs w h d0 s \<Longrightarrow> q \<in> set (pixelStack s) \<Longrightarrow> inGrid w h q"
  unfolding frame_def by blast

lemma frame_length: "frame bs w h d0 s \<Longrightarrow> length (data s) = length d0"
  unfolding frame_def by blast

lemma frame_writes: "frame bs w h d0 s \<Longrightarrow> set (writes s) \<subseteq> posOf w ` {q. inGrid w h q}"
  unfolding frame_def by blast

lemma inGrid_posOf_eq:
  assumes "inGrid w h q" "inGrid w h q'" "posOf w q = posOf w q'"
  shows "q = q'"
  using assms posOf_inj[of "fst q" w "fst q'" "snd q" "snd q'"]
  by (cases q, cases q') (auto simp: inGrid_def)

lemma channel_clear4_other:
  assumes "posOf w q \<noteq> posOf w q'" "k \<in> {0, 1, 2, 3}"
  shows "channel (clear4 d (posOf w q')) (posOf w q + k) = channel d (posOf w q + k)"
  using posOf_apart[OF assms] by (auto simp: channel_clear4)

lemma channel_clear4_same:
  assumes "inGrid w h q" "int (length d) = 4 * w * h" "k \<in> {0, 1, 2, 3}"
  shows "channel (clear4 d (posOf w q)) (posOf w q + k) = Some 0"
proof -
  obtain x y where q: "q = (x, y)" by (cases q)
  from posOf_bounds[of w h x y] assms q
  have "0 \<le> posOf w q" "posOf w q + 3 < int (length d)" by simp_all
  then show ?thesis using assms(3) by (auto simp: channel_clear4)
qed

lemma matches_clear4_other:
  assumes "posOf w q \<noteq> posOf w q'"
  shows "matches bs (clear4 d (posOf w q')) (posOf w q) = matches bs d (posOf w q)"
proof (rule matches_cong)
  show "channel (clear4 d (posOf w q')) (posOf w q) = channel d (posOf w q)"
    using channel_clear4_other[OF assms, of 0] by simp
  show "channel (clear4 d (posOf w q')) (posOf w q + 1) = channel d (posOf w q + 1)"
    using channel_clear4_other[OF assms, of 1] by simp
  show "channel (clear4 d (posOf w q')) (posOf w q + 2) = channel d (posOf w q + 2)"
    using channel_clear4_other[OF assms, of 2] by simp
qed

text \<open>A pixel that matches in the current buffer matched in the original one.\<close>

lemma frame_matches_orig:
  assumes f: "frame bs w h d0 s" and g: "inGrid w h q" and m: "matches bs (data s) (posOf w q)"
  shows "matches bs d0 (posOf w q)"
proof (cases "posOf w q \<in> set (writes s)")
  case True
  then show ?thesis using frame_pixel[OF f g] by simp
next
  case False
  then have "\<forall>k\<in>{0, 1, 2, 3}. channel (data s) (posOf w q + k) = channel d0 (posOf w q + k)"
    using frame_pixel[OF f g] by simp
  then have "matches bs (data s) (posOf w q) = matches bs d0 (posOf w q)"
    by (intro matches_cong) simp_all
  with m show ?thesis by simp
qed

text \<open>A position that matches and lies in a column of the grid lies in the grid.\<close>

lemma matches_inGrid:
  assumes "matches bs d (posOf w (x, y))" "0 \<le> x" "x < w" "int (length d) = 4 * w * h"
  shows "inGrid w h (x, y)"
proof -
  from matches_range[OF assms(1)] assms(4)
  have "0 \<le> posOf w (x, y)" "posOf w (x, y) < 4 * w * h" by simp_all
  from posOf_row[OF assms(2,3) this] assms(2,3) show ?thesis by (simp add: inGrid_def)
qed

lemma visit_pushes:
  assumes "visit bs w x r (posOf w (x, r)) rl rr s = (rl', rr', s')"
  shows "\<exists>new. pixelStack s' = new @ pixelStack s \<and> pushes s' = pushes s + length new \<and>
           (\<forall>q\<in>set new. pushable bs w (data s') x r q)"
proof -
  from visit_effect[OF assms] obtain ls rs where
    e: "data s' = clear4 (data s) (posOf w (x, r))"
       "pixelStack s' = rs @ ls @ pixelStack s" "pushes s' = pushes s + length rs + length ls"
       "ls = [] \<or> (ls = [(x - 1, r)] \<and> 0 < x \<and> matches bs (data s') (posOf w (x, r) - 4))"
       "rs = [] \<or> (rs = [(x + 1, r)] \<and> x < w - 1 \<and> matches bs (data s') (posOf w (x, r) + 4))
         \<or> (rs = [(x + 1, r - 1)] \<and> x < w - 1 \<and> matches bs (data s') (posOf w (x, r) + 4 - w * 4))"
    by auto
  have "\<forall>q\<in>set (rs @ ls). pushable bs w (data s') x r q"
    using e(4,5) by (auto simp: pushable_def posOf_simps)
  then show ?thesis using e(2,3) by (intro exI[of _ "rs @ ls"]) simp
qed

lemma frame_visit:
  assumes f: "frame bs w h d0 s" and len: "int (length d0) = 4 * w * h"
    and g: "inGrid w h (x, r)" and m: "matches bs (data s) (posOf w (x, r))"
    and v: "visit bs w x r (posOf w (x, r)) rl rr s = (rl', rr', s')"
  shows "frame bs w h d0 s'"
proof -
  let ?p = "posOf w (x, r)"
  from visit_effect[OF v] have d: "data s' = clear4 (data s) ?p" and wr: "writes s' = ?p # writes s"
    by simp_all
  from visit_pushes[OF v] obtain new where
    st: "pixelStack s' = new @ pixelStack s" and pu: "\<forall>q\<in>set new. pushable bs w (data s') x r q"
    by blast
  have l: "length (data s) = length d0" using f by (rule frame_length)
  have l': "int (length (data s')) = 4 * w * h" using d l len by simp
  have x: "0 \<le> x" "x < w" using g by (simp_all add: inGrid_def)
  have "inGrid w h q" if "q \<in> set new" for q
  proof -
    from pu that have p: "pushable bs w (data s') x r q" by blast
    then obtain qx qy where q: "q = (qx, qy)" "0 \<le> qx" "qx < w"
      using x by (cases q) (auto simp: pushable_def)
    from p have "matches bs (data s') (posOf w q)" by (simp add: pushable_def)
    from matches_inGrid[OF this[unfolded q(1)] q(2,3) l'] q show ?thesis by simp
  qed
  then have stack: "\<forall>q\<in>set (pixelStack s'). inGrid w h q"
    using frame_stack[OF f] st by auto
  have wsub: "set (writes s') \<subseteq> posOf w ` {q. inGrid w h q}"
    using frame_writes[OF f] g wr by auto
  have px: "if posOf w q \<in> set (writes s')
         then matches bs d0 (posOf w q) \<and>
              (\<forall>k\<in>{0, 1, 2, 3}. channel (data s') (posOf w q + k) = Some 0)
         else (\<forall>k\<in>{0, 1, 2, 3}. channel (data s') (posOf w q + k) = channel d0 (posOf w q + k))"
    if gq: "inGrid w h q" for q
  proof (cases "posOf w q = ?p")
    case True
    have "matches bs d0 (posOf w q)" using frame_matches_orig[OF f g m] True by simp
    moreover have "\<forall>k\<in>{0, 1, 2, 3}. channel (data s') (posOf w q + k) = Some 0"
      using channel_clear4_same[OF g, of "data s"] l len d True by simp
    ultimately show ?thesis using wr True by simp
  next
    case False
    have same: "\<forall>k\<in>{0, 1, 2, 3}. channel (data s') (posOf w q + k) = channel (data s) (posOf w q + k)"
      using channel_clear4_other[OF False] d by simp
    have "posOf w q \<in> set (writes s') \<longleftrightarrow> posOf w q \<in> set (writes s)" using wr False by simp
    then show ?thesis using frame_pixel[OF f gq] same by (auto split: if_splits)
  qed
  show ?thesis
  proof (rule frameI)
    show "length (data s') = length d0" using l d by simp
    show "set (writes s') \<subseteq> posOf w ` {q. inGrid w h q}" by (rule wsub)
    show "\<And>q. q \<in> set (pixelStack s') \<Longrightarrow> inGrid w h q" using stack by blast
  qed (rule px)
qed

lemma frame_pop:
  assumes "frame bs w h d0 s" "pixelStack s = q # rest"
  shows "frame bs w h d0 (s\<lparr>pixelStack := rest\<rparr>)" "inGrid w h q"
  using assms by (auto simp: frame_def)

lemma frame_scanColumn:
  assumes f: "frame bs w h d0 s" and len: "int (length d0) = 4 * w * h" and g: "inGrid w h (x, y)"
  shows "frame bs w h d0 (scanColumn bs w h x y s)"
proof (rule scanColumn_rule[where I = "\<lambda>r t. frame bs w h d0 t \<and> 0 \<le> r"])
  show "0 \<le> y" using g by (simp add: inGrid_def)
  show "\<And>k. 0 \<le> k \<Longrightarrow> frame bs w h d0 s \<and> 0 \<le> k" using f by simp
  show "\<And>r s l. (frame bs w h d0 (s\<lparr>reads := l\<rparr>) \<and> 0 \<le> r) = (frame bs w h d0 s \<and> 0 \<le> r)"
    by simp
  show "\<And>r s. frame bs w h d0 s \<and> 0 \<le> r \<Longrightarrow> frame bs w h d0 s" by simp
next
  fix r t rl rr rl' rr' t'
  assume i: "frame bs w h d0 t \<and> 0 \<le> r" and r: "r < h"
    and m: "matches bs (data t) (posOf w (x, r))"
    and v: "visit bs w x r (posOf w (x, r)) rl rr t = (rl', rr', t')"
  have "inGrid w h (x, r)" using g i r by (simp add: inGrid_def)
  from frame_visit[OF _ len this m v] i show "frame bs w h d0 t' \<and> 0 \<le> r + 1" by simp
qed

lemma frame_initState:
  assumes "inGrid w h (x, y)"
  shows "frame bs w h d (initState x y w d)"
  using assms by (intro frameI) (simp_all add: initState_def Let_def)

lemma floodFill_posOf:
  "floodFill x y w h d tol = fillLoop (seedBounds d (posOf w (x, y)) tol) w h (initState x y w d)"
  by (simp add: floodFill_def posOf_def)

lemma frame_floodFill:
  assumes v: "validInput w h d x y tol" and run: "floodFill x y w h d tol = Some t"
  shows "frame (seedBounds d (posOf w (x, y)) tol) w h d t"
proof -
  let ?bs = "seedBounds d (posOf w (x, y)) tol"
  have len: "int (length d) = 4 * w * h" and g: "inGrid w h (x, y)"
    using v by (simp_all add: validInput_def)
  have "frame ?bs w h d t \<and> pixelStack t = []"
  proof (rule fillLoop_rule[where I = "frame ?bs w h d"])
    show "fillLoop ?bs w h (initState x y w d) = Some t" using run by (simp add: floodFill_posOf)
    show "frame ?bs w h d (initState x y w d)" by (rule frame_initState[OF g])
  next
    fix s a b rest
    assume f: "frame ?bs w h d s" and st: "pixelStack s = (a, b) # rest"
    from frame_scanColumn[OF frame_pop(1)[OF f st] len frame_pop(2)[OF f st]]
    show "frame ?bs w h d (scanColumn ?bs w h a b (s\<lparr>pixelStack := rest\<rparr>))" .
  qed
  then show ?thesis by simp
qed

lemma pixel_eq:
  "pixel d w q = pixel d' w q \<longleftrightarrow> (\<forall>k\<in>{0, 1, 2, 3}. channel d (posOf w q + k) = channel d' (posOf w q + k))"
  by (simp add: pixel_def)

lemma pixel_zero:
  "pixel d w q = [Some 0, Some 0, Some 0, Some 0] \<longleftrightarrow> (\<forall>k\<in>{0, 1, 2, 3}. channel d (posOf w q + k) = Some 0)"
  by (simp add: pixel_def)

section \<open>The zeroed pixels hang together\<close>

lemma region_mono:
  assumes "Z \<subseteq> Z'"
  shows "region Z seed \<subseteq> region Z' seed"
proof
  fix q assume "q \<in> region Z seed"
  then show "q \<in> region Z' seed"
    using assms by induction (auto intro: region.intros)
qed

lemma region_sub: "region Z seed \<subseteq> Z"
proof
  fix q assume "q \<in> region Z seed"
  then show "q \<in> Z" by induction
qed

lemma zeroed_reads [simp]: "zeroed w h (s\<lparr>reads := l\<rparr>) = zeroed w h s"
  by (simp add: zeroed_def)

lemma zeroed_stack [simp]: "zeroed w h (s\<lparr>pixelStack := l\<rparr>) = zeroed w h s"
  by (simp add: zeroed_def)

lemma linked_reads [simp]: "linked bs w h seed P (s\<lparr>reads := l\<rparr>) = linked bs w h seed P s"
  by (simp add: linked_def)

lemma zeroed_visit:
  assumes g: "inGrid w h (x, r)" and v: "visit bs w x r (posOf w (x, r)) rl rr s = (rl', rr', s')"
  shows "zeroed w h s' = insert (x, r) (zeroed w h s)"
proof -
  from visit_effect[OF v] have wr: "writes s' = posOf w (x, r) # writes s" by simp
  show ?thesis
    unfolding zeroed_def wr using g inGrid_posOf_eq[OF _ g] by auto
qed

lemma walking_step:
  assumes i: "walking bs w h d0 seed x y0 r s" and len: "int (length d0) = 4 * w * h"
    and x: "0 \<le> x" "x < w" and r: "r < h"
    and m: "matches bs (data s) (posOf w (x, r))"
    and v: "visit bs w x r (posOf w (x, r)) rl rr s = (rl', rr', s')"
  shows "walking bs w h d0 seed x y0 (r + 1) s'"
proof -
  let ?Z = "zeroed w h s" and ?Z' = "zeroed w h s'"
  let ?T = "zeroed w h s \<union> pend x r y0" and ?T' = "zeroed w h s' \<union> pend x (r + 1) y0"
  let ?p = "posOf w (x, r)"
  from i have f: "frame bs w h d0 s" and r0: "0 \<le> r"
    and l: "linked bs w h seed (pend x r y0) s"
    and pm: "\<forall>r'. r \<le> r' \<and> r' \<le> y0 \<longrightarrow> matches bs (data s) (posOf w (x, r'))"
    and ab: "r \<le> y0 \<or> (x, r - 1) \<in> ?Z"
    by (simp_all add: walking_def)
  have g: "inGrid w h (x, r)" using x r r0 by (simp add: inGrid_def)
  have f': "frame bs w h d0 s'" by (rule frame_visit[OF f len g m v])
  have Z': "?Z' = insert (x, r) ?Z" by (rule zeroed_visit[OF g v])
  from visit_effect[OF v] have d: "data s' = clear4 (data s) ?p" by simp
  from visit_pushes[OF v] obtain new where
    st: "pixelStack s' = new @ pixelStack s" and pu: "\<forall>q\<in>set new. pushable bs w (data s') x r q"
    by blast
  from l have T: "?T \<subseteq> region ?T seed"
    and sd: "seed \<in> ?T \<or> seed \<in> set (pixelStack s)"
    and sk: "\<forall>q\<in>set (pixelStack s). q \<in> region (insert q ?T) seed \<and>
               (q \<in> ?Z \<or> matches bs (data s) (posOf w q))"
    by (simp_all add: linked_def)
  have A: "?T \<subseteq> ?T'"
  proof
    fix q assume "q \<in> ?T"
    then consider "q \<in> ?Z" | "q \<in> pend x r y0" by blast
    then show "q \<in> ?T'"
    proof cases
      case 1 then show ?thesis using Z' by simp
    next
      case 2
      then have "q = (x, r) \<or> q \<in> pend x (r + 1) y0"
        by (cases q) (auto simp: pend_def)
      then show ?thesis using Z' by auto
    qed
  qed
  have B: "?T' \<subseteq> insert (x, r) ?T"
    using Z' by (auto simp: pend_def)
  have here: "(x, r) \<in> region ?T' seed"
  proof (cases "r \<le> y0")
    case True
    then have "(x, r) \<in> ?T" by (simp add: pend_def)
    then show ?thesis using T region_mono[OF A] by blast
  next
    case False
    with ab have "(x, r - 1) \<in> ?T" by simp
    then have "(x, r - 1) \<in> region ?T' seed" using T region_mono[OF A] by blast
    moreover have "fillStep (x, r - 1) (x, r)" by (simp add: fillStep_def)
    moreover have "(x, r) \<in> ?T'" using Z' by simp
    ultimately show ?thesis by (rule region.step)
  qed
  have T': "?T' \<subseteq> region ?T' seed"
  proof
    fix q assume "q \<in> ?T'"
    with B have "q = (x, r) \<or> q \<in> ?T" by blast
    then show "q \<in> region ?T' seed"
      using here T region_mono[OF A] by blast
  qed
  have sd': "seed \<in> ?T' \<or> seed \<in> set (pixelStack s')"
    using sd A st by auto
  have sk': "q \<in> region (insert q ?T') seed \<and> (q \<in> ?Z' \<or> matches bs (data s') (posOf w q))"
    if q: "q \<in> set (pixelStack s')" for q
  proof (cases "q \<in> set new")
    case True
    with pu have p: "pushable bs w (data s') x r q" by blast
    then have fs: "fillStep (x, r) q" by (auto simp: pushable_def fillStep_def)
    have "(x, r) \<in> region (insert q ?T') seed"
      using here region_mono[of ?T' "insert q ?T'"] by blast
    then have "q \<in> region (insert q ?T') seed"
      using fs by (rule region.step) simp
    then show ?thesis using p by (simp add: pushable_def)
  next
    case False
    with q st have qs: "q \<in> set (pixelStack s)" by simp
    with sk have 1: "q \<in> region (insert q ?T) seed"
      and 2: "q \<in> ?Z \<or> matches bs (data s) (posOf w q)" by blast+
    have "insert q ?T \<subseteq> insert q ?T'" using A by blast
    from region_mono[OF this] 1 have "q \<in> region (insert q ?T') seed" by blast
    moreover have "q \<in> ?Z' \<or> matches bs (data s') (posOf w q)"
    proof (cases "posOf w q = ?p")
      case True
      have "q = (x, r)" by (rule inGrid_posOf_eq[OF frame_stack[OF f qs] g True])
      then show ?thesis using Z' by simp
    next
      case False
      then show ?thesis using 2 Z' d matches_clear4_other[OF False] by auto
    qed
    ultimately show ?thesis by simp
  qed
  have pm': "matches bs (data s') (posOf w (x, r'))" if "r + 1 \<le> r'" "r' \<le> y0" for r'
  proof -
    have "posOf w (x, r') \<noteq> ?p"
      using posOf_inj[OF x x, of r' r] that by auto
    then show ?thesis using pm that d matches_clear4_other by auto
  qed
  have "linked bs w h seed (pend x (r + 1) y0) s'"
    unfolding linked_def using T' sd' sk' by blast
  moreover have "r + 1 \<le> y0 \<or> (x, r + 1 - 1) \<in> ?Z'" using Z' by simp
  ultimately show ?thesis
    unfolding walking_def using f' r0 pm' by simp
qed

lemma column_up:
  assumes top: "(x, y0) \<in> region T seed" and sub: "pend x k y0 \<subseteq> T"
  shows "k \<le> y0 - int n \<Longrightarrow> (x, y0 - int n) \<in> region T seed"
proof (induction n)
  case 0
  then show ?case using top by simp
next
  case (Suc n)
  then have "(x, y0 - int n) \<in> region T seed" by simp
  moreover have "fillStep (x, y0 - int n) (x, y0 - int (Suc n))"
    by (simp add: fillStep_def)
  moreover have "(x, y0 - int (Suc n)) \<in> T"
    using sub Suc.prems by (auto simp: pend_def)
  ultimately show ?case by (rule region.step)
qed

lemma walking_init:
  assumes f: "frame bs w h d0 s" and l: "linked bs w h seed {} s"
    and st: "pixelStack s = (x, y0) # rest"
    and k: "0 \<le> k" "k \<le> y0 + 1"
    and pm: "\<forall>r. k \<le> r \<and> r \<le> y0 \<longrightarrow> matches bs (data s) (posOf w (x, r))"
    and top: "k = 0 \<or> \<not> matches bs (data s) (posOf w (x, k - 1))"
  shows "walking bs w h d0 seed x y0 k (s\<lparr>pixelStack := rest\<rparr>)"
proof -
  let ?Z = "zeroed w h s"
  let ?T = "?Z \<union> pend x k y0"
  let ?s = "s\<lparr>pixelStack := rest\<rparr>"
  have y0: "0 \<le> y0" using frame_pop(2)[OF f st] by (simp add: inGrid_def)
  from l have Z: "?Z \<subseteq> region ?Z seed"
    and sd: "seed \<in> ?Z \<or> seed \<in> set (pixelStack s)"
    and sk: "\<forall>q\<in>set (pixelStack s). q \<in> region (insert q ?Z) seed \<and>
               (q \<in> ?Z \<or> matches bs (data s) (posOf w q))"
    by (simp_all add: linked_def)
  from sk st have p1: "(x, y0) \<in> region (insert (x, y0) ?Z) seed"
    and p2: "(x, y0) \<in> ?Z \<or> matches bs (data s) (posOf w (x, y0))" by simp_all
  have above: "k \<le> y0 \<or> (x, k - 1) \<in> ?Z"
  proof (cases "k \<le> y0")
    case False
    with k have e: "k - 1 = y0" by simp
    from False k y0 have "k \<noteq> 0" by simp
    with top e have "\<not> matches bs (data s) (posOf w (x, y0))" by simp
    with p2 e show ?thesis by simp
  qed simp
  have popT: "(x, y0) \<in> ?T"
  proof (cases "k \<le> y0")
    case True then show ?thesis by (simp add: pend_def)
  next
    case False
    with k have "k - 1 = y0" by simp
    with False above have "(x, y0) \<in> ?Z" by simp
    then show ?thesis by simp
  qed
  then have "insert (x, y0) ?Z \<subseteq> ?T" by blast
  from region_mono[OF this] p1 have pop: "(x, y0) \<in> region ?T seed" by blast
  have T: "?T \<subseteq> region ?T seed"
  proof
    fix q assume "q \<in> ?T"
    then consider "q \<in> ?Z" | "q \<in> pend x k y0" by blast
    then show "q \<in> region ?T seed"
    proof cases
      case 1
      then show ?thesis using Z region_mono[of ?Z ?T seed] by blast
    next
      case 2
      then obtain r where q: "q = (x, r)" "k \<le> r" "r \<le> y0" by (cases q) (auto simp: pend_def)
      have "k \<le> y0 - int (nat (y0 - r))" using q by simp
      from column_up[OF pop _ this] have "(x, y0 - int (nat (y0 - r))) \<in> region ?T seed" by blast
      then show ?thesis using q by simp
    qed
  qed
  have sd': "seed \<in> ?T \<or> seed \<in> set rest" using sd st popT by auto
  have sk': "\<forall>q\<in>set rest. q \<in> region (insert q ?T) seed \<and>
               (q \<in> ?Z \<or> matches bs (data s) (posOf w q))"
  proof
    fix q assume q: "q \<in> set rest"
    with sk st have 1: "q \<in> region (insert q ?Z) seed"
      and 2: "q \<in> ?Z \<or> matches bs (data s) (posOf w q)" by simp_all
    have "insert q ?Z \<subseteq> insert q ?T" by blast
    from region_mono[OF this] 1 2
    show "q \<in> region (insert q ?T) seed \<and> (q \<in> ?Z \<or> matches bs (data s) (posOf w q))" by blast
  qed
  have "linked bs w h seed (pend x k y0) ?s"
    unfolding linked_def using T sd' sk' by simp
  then show ?thesis
    unfolding walking_def using frame_pop(1)[OF f st] k pm above by simp
qed

lemma walking_final:
  assumes i: "walking bs w h d0 seed x y0 r s" and y0: "y0 < h"
    and stop: "\<not> (r < h \<and> matches bs (data s) (posOf w (x, r)))"
  shows "frame bs w h d0 s \<and> linked bs w h seed {} s"
proof -
  have "y0 < r"
  proof (rule ccontr)
    assume "\<not> y0 < r"
    then have "r \<le> y0" by simp
    with i have "matches bs (data s) (posOf w (x, r))" by (simp add: walking_def)
    with stop \<open>r \<le> y0\<close> y0 show False by simp
  qed
  then have "pend x r y0 = {}" by (auto simp: pend_def)
  with i show ?thesis by (simp add: walking_def)
qed

lemma walking_reads [simp]:
  "walking bs w h d0 seed x y0 r (s\<lparr>reads := l\<rparr>) = walking bs w h d0 seed x y0 r s"
  by (simp add: walking_def)

lemma linked_scanColumn:
  assumes f: "frame bs w h d0 s" and l: "linked bs w h seed {} s"
    and len: "int (length d0) = 4 * w * h" and st: "pixelStack s = (x, y0) # rest"
  shows "frame bs w h d0 (scanColumn bs w h x y0 (s\<lparr>pixelStack := rest\<rparr>)) \<and>
         linked bs w h seed {} (scanColumn bs w h x y0 (s\<lparr>pixelStack := rest\<rparr>))"
proof -
  have g: "inGrid w h (x, y0)" by (rule frame_pop(2)[OF f st])
  then have x: "0 \<le> x" "x < w" and y0: "0 \<le> y0" "y0 < h" by (simp_all add: inGrid_def)
  show ?thesis
  proof (rule scanColumn_rule[where I = "walking bs w h d0 seed x y0"])
    show "0 \<le> y0" by (rule y0)
    show "\<And>r s l. walking bs w h d0 seed x y0 r (s\<lparr>reads := l\<rparr>) = walking bs w h d0 seed x y0 r s"
      by simp
    show "walking bs w h d0 seed x y0 k (s\<lparr>pixelStack := rest\<rparr>)"
      if "0 \<le> k" "k \<le> y0 + 1"
        "\<forall>r. k \<le> r \<and> r \<le> y0 \<longrightarrow> matches bs (data (s\<lparr>pixelStack := rest\<rparr>)) (posOf w (x, r))"
        "k = 0 \<or> \<not> matches bs (data (s\<lparr>pixelStack := rest\<rparr>)) (posOf w (x, k - 1))" for k
      using walking_init[OF f l st that(1,2)] that(3,4) by simp
    show "walking bs w h d0 seed x y0 (r + 1) t'"
      if "walking bs w h d0 seed x y0 r t" "r < h" "matches bs (data t) (posOf w (x, r))"
        "visit bs w x r (posOf w (x, r)) rl rr t = (rl', rr', t')" for r t rl rr rl' rr' t'
      by (rule walking_step[OF that(1) len x that(2,3,4)])
    show "frame bs w h d0 t \<and> linked bs w h seed {} t"
      if "walking bs w h d0 seed x y0 r t" "\<not> (r < h \<and> matches bs (data t) (posOf w (x, r)))" for r t
      by (rule walking_final[OF that(1) y0(2) that(2)])
  qed
qed

text \<open>The seed pixel lies within the bounds computed from it.\<close>

lemma seed_matches:
  assumes "validInput w h d x y tol"
  shows "matches (seedBounds d (posOf w (x, y)) tol) d (posOf w (x, y))"
proof -
  let ?p = "posOf w (x, y)"
  have len: "int (length d) = 4 * w * h" and g: "inGrid w h (x, y)" and tol: "0 \<le> tol"
    using assms by (simp_all add: validInput_def)
  from posOf_bounds[OF g] len have r: "0 \<le> ?p" "?p + 3 < int (length d)" by simp_all
  have nn: "0 \<le> (of_int (uint v) :: rat)" for v :: "8 word"
    by (simp only: of_int_0_le_iff unsigned_greater_eq)
  have lo: "a * (1 - tol) \<le> a" if "0 \<le> a" for a :: rat
  proof -
    have "0 \<le> a * tol" using tol that by (rule mult_nonneg_nonneg[rotated])
    then show ?thesis by (simp add: algebra_simps)
  qed
  have hi: "a \<le> a * (1 + tol)" if "0 \<le> a" for a :: rat
  proof -
    have "0 \<le> a * tol" using tol that by (rule mult_nonneg_nonneg[rotated])
    then show ?thesis by (simp add: algebra_simps)
  qed
  show ?thesis
    using r lo[OF nn] hi[OF nn] by (simp add: matches_def seedBounds_def channel_def scale_def geq_def leq_def Let_def)
qed

lemma linked_initState:
  assumes "validInput w h d x y tol"
  shows "linked (seedBounds d (posOf w (x, y)) tol) w h (x, y) {} (initState x y w d)"
proof -
  have "zeroed w h (initState x y w d) = {}" by (simp add: zeroed_def initState_def Let_def)
  moreover have "(x, y) \<in> region {(x, y)} (x, y)" by (rule region.seed) simp
  ultimately show ?thesis
    using seed_matches[OF assms] by (simp add: linked_def initState_def Let_def)
qed

lemma linked_floodFill:
  assumes v: "validInput w h d x y tol" and run: "floodFill x y w h d tol = Some t"
  shows "linked (seedBounds d (posOf w (x, y)) tol) w h (x, y) {} t \<and> pixelStack t = []"
proof -
  let ?bs = "seedBounds d (posOf w (x, y)) tol"
  have len: "int (length d) = 4 * w * h" and g: "inGrid w h (x, y)"
    using v by (simp_all add: validInput_def)
  have "(frame ?bs w h d t \<and> linked ?bs w h (x, y) {} t) \<and> pixelStack t = []"
  proof (rule fillLoop_rule[where I = "\<lambda>s. frame ?bs w h d s \<and> linked ?bs w h (x, y) {} s"])
    show "fillLoop ?bs w h (initState x y w d) = Some t" using run by (simp add: floodFill_posOf)
    show "frame ?bs w h d (initState x y w d) \<and> linked ?bs w h (x, y) {} (initState x y w d)"
      using frame_initState[OF g] linked_initState[OF v] by simp
  next
    fix s a b rest
    assume "frame ?bs w h d s \<and> linked ?bs w h (x, y) {} s" and st: "pixelStack s = (a, b) # rest"
    then show "frame ?bs w h d (scanColumn ?bs w h a b (s\<lparr>pixelStack := rest\<rparr>)) \<and>
          linked ?bs w h (x, y) {} (scanColumn ?bs w h a b (s\<lparr>pixelStack := rest\<rparr>))"
      using linked_scanColumn[OF _ _ len st] by blast
  qed
  then show ?thesis by simp
qed

section \<open>Pixels left alone, and a second run\<close>






lemma black_channels:
  "black d w q \<longleftrightarrow> channel d (posOf w q) = Some 0 \<and> channel d (posOf w q + 1) = Some 0 \<and>
     channel d (posOf w q + 2) = Some 0"
  by (simp add: black_def pixel_def)

lemma unsigned_rat_le_0: "(of_int (uint (v :: 8 word)) :: rat) \<le> 0 \<longleftrightarrow> v = 0"
proof -
  have "(of_int (uint v) :: rat) \<le> 0 \<longleftrightarrow> uint v \<le> 0" by (simp only: of_int_le_0_iff)
  also have "\<dots> \<longleftrightarrow> uint v = 0" using uint_ge_0[of v] by linarith
  also have "\<dots> \<longleftrightarrow> v = 0" by (simp add: uint_0_iff)
  finally show ?thesis .
qed

lemma unsigned_rat_ge_0: "0 \<le> (of_int (uint (v :: 8 word)) :: rat)"
  by (simp only: of_int_0_le_iff unsigned_greater_eq)


section \<open>Termination and the number of pushes\<close>

lemma grid_eq: "{q. inGrid w h q} = {0..<w} \<times> {0..<h}"
  by (auto simp: inGrid_def)

lemma finite_grid: "finite {q. inGrid w h q}"
  unfolding grid_eq by simp

lemma card_grid: "card {q. inGrid w h q} = nat w * nat h"
  unfolding grid_eq by (simp add: card_cartesian_product)

lemma finite_matching: "finite (matching bs w h d)"
  by (rule finite_subset[OF _ finite_grid[of w h]]) (auto simp: matching_def)

lemma matches_vals:
  "channel d i = channel d' i' \<Longrightarrow> channel d (i + 1) = channel d' (i' + 1) \<Longrightarrow>
   channel d (i + 2) = channel d' (i' + 2) \<Longrightarrow> matches bs d i = matches bs d' i'"
  by (simp add: matches_def)

lemma matches_zero:
  assumes "channel d i = Some 0" "channel d (i + 1) = Some 0" "channel d (i + 2) = Some 0"
  shows "matches bs d i = zeroMatches bs"
  unfolding zeroMatches_def using assms by (intro matches_vals) (simp_all add: channel_def)

lemma matches_cleared:
  assumes "inGrid w h q" "int (length d) = 4 * w * h"
  shows "matches bs (clear4 d (posOf w q)) (posOf w q) = zeroMatches bs"
  using channel_clear4_same[OF assms, of 0] channel_clear4_same[OF assms, of 1]
    channel_clear4_same[OF assms, of 2]
  by (intro matches_zero) simp_all

lemma matching_visit:
  assumes g: "inGrid w h (x, r)" and len: "int (length (data s)) = 4 * w * h"
    and nz: "\<not> zeroMatches bs" and m: "matches bs (data s) (posOf w (x, r))"
    and v: "visit bs w x r (posOf w (x, r)) rl rr s = (rl', rr', s')"
  shows "matching bs w h (data s') = matching bs w h (data s) - {(x, r)}"
    and "(x, r) \<in> matching bs w h (data s)"
proof -
  from visit_effect[OF v] have d: "data s' = clear4 (data s) (posOf w (x, r))" by simp
  show "(x, r) \<in> matching bs w h (data s)" using g m by (simp add: matching_def)
  show "matching bs w h (data s') = matching bs w h (data s) - {(x, r)}"
  proof (rule set_eqI)
    fix q
    show "q \<in> matching bs w h (data s') \<longleftrightarrow> q \<in> matching bs w h (data s) - {(x, r)}"
    proof (cases "q = (x, r)")
      case True
      then show ?thesis using matches_cleared[OF g len] nz d by (simp add: matching_def)
    next
      case False
      show ?thesis
      proof (cases "inGrid w h q")
        case True
        with False inGrid_posOf_eq[OF True g] have "posOf w q \<noteq> posOf w (x, r)" by blast
        from matches_clear4_other[OF this] d False show ?thesis by (simp add: matching_def)
      next
        case False
        then show ?thesis by (simp add: matching_def)
      qed
    qed
  qed
qed

lemma scanColumn_decreases:
  assumes f: "frame bs w h d0 s" and len: "int (length d0) = 4 * w * h"
    and g: "inGrid w h (x, y)" and nz: "\<not> zeroMatches bs"
  shows "card (matching bs w h (data (scanColumn bs w h x y s))) < card (matching bs w h (data s)) \<or>
         (data (scanColumn bs w h x y s) = data s \<and> pixelStack (scanColumn bs w h x y s) = pixelStack s)"
proof -
  let ?m = "\<lambda>t. card (matching bs w h (data t))"
  let ?Q = "\<lambda>t. ?m t < ?m s \<or> (data t = data s \<and> pixelStack t = pixelStack s)"
  have x: "0 \<le> x" "x < w" and y: "0 \<le> y" using g by (simp_all add: inGrid_def)
  show ?thesis
  proof (rule scanColumn_rule[where I = "\<lambda>r t. frame bs w h d0 t \<and> 0 \<le> r \<and> ?Q t" and Q = ?Q])
    show "0 \<le> y" by (rule y)
    show "\<And>k. 0 \<le> k \<Longrightarrow> frame bs w h d0 s \<and> 0 \<le> k \<and> ?Q s" using f by simp
    show "\<And>r t l. (frame bs w h d0 (t\<lparr>reads := l\<rparr>) \<and> 0 \<le> r \<and> ?Q (t\<lparr>reads := l\<rparr>)) =
        (frame bs w h d0 t \<and> 0 \<le> r \<and> ?Q t)" by simp
    show "\<And>r t. frame bs w h d0 t \<and> 0 \<le> r \<and> ?Q t \<Longrightarrow> ?Q t" by simp
  next
    fix r t rl rr rl' rr' t'
    assume i: "frame bs w h d0 t \<and> 0 \<le> r \<and> ?Q t" and r: "r < h"
      and m: "matches bs (data t) (posOf w (x, r))"
      and v: "visit bs w x r (posOf w (x, r)) rl rr t = (rl', rr', t')"
    have gr: "inGrid w h (x, r)" using x i r by (simp add: inGrid_def)
    have lt: "int (length (data t)) = 4 * w * h" using frame_length[of bs w h d0 t] i len by simp
    have "?m t' = card (matching bs w h (data t) - {(x, r)})"
      using matching_visit(1)[OF gr lt nz m v] by simp
    also have "\<dots> < ?m t"
      using matching_visit(2)[OF gr lt nz m v] finite_matching[of bs w h "data t"]
      by (intro card_Diff1_less) simp_all
    finally have "?m t' < ?m t" .
    moreover have "?m t \<le> ?m s" using i by auto
    ultimately have "?Q t'" by simp
    then show "frame bs w h d0 t' \<and> 0 \<le> r + 1 \<and> ?Q t'"
      using frame_visit[OF _ len gr m v] i by simp
  qed
qed

lemma fill_terminates:
  assumes v: "validInput w h d x y tol" and nz: "\<not> zeroMatches (seedBounds d (posOf w (x, y)) tol)"
  shows "\<exists>t. floodFill x y w h d tol = Some t"
proof -
  let ?bs = "seedBounds d (posOf w (x, y)) tol"
  let ?R = "measures [\<lambda>s. card (matching ?bs w h (data s)), \<lambda>s. length (pixelStack s)]"
  have len: "int (length d) = 4 * w * h" and g: "inGrid w h (x, y)"
    using v by (simp_all add: validInput_def)
  have "\<exists>t. fillLoop ?bs w h (initState x y w d) = Some t"
  proof (rule fillLoop_total[where I = "frame ?bs w h d" and R = ?R])
    show "wf ?R" by simp
    show "frame ?bs w h d (initState x y w d)" by (rule frame_initState[OF g])
  next
    fix s a b rest
    assume f: "frame ?bs w h d s" and st: "pixelStack s = (a, b) # rest"
    note fp = frame_pop[OF f st]
    show "frame ?bs w h d (scanColumn ?bs w h a b (s\<lparr>pixelStack := rest\<rparr>))"
      by (rule frame_scanColumn[OF fp(1) len fp(2)])
    from scanColumn_decreases[OF fp(1) len fp(2) nz] st
    show "(scanColumn ?bs w h a b (s\<lparr>pixelStack := rest\<rparr>), s) \<in> ?R"
      by auto
  qed
  then show ?thesis by (simp add: floodFill_posOf)
qed

lemma charged_reads [simp]: "charged bs w h (s\<lparr>reads := l\<rparr>) C = charged bs w h s C"
  by (simp add: charged_def)

lemma zeroed_nomatch:
  assumes f: "frame bs w h d0 s" and nz: "\<not> zeroMatches bs" and q: "q \<in> zeroed w h s"
  shows "\<not> matches bs (data s) (posOf w q)"
proof -
  from frame_pixel[OF f, of q] q
  have "\<forall>k\<in>{0, 1, 2, 3}. channel (data s) (posOf w q + k) = Some 0" by (simp add: zeroed_def)
  then have "matches bs (data s) (posOf w q) = zeroMatches bs"
    by (intro matches_zero) simp_all
  with nz show ?thesis by simp
qed

lemma charged_visit:
  assumes f: "frame bs w h d0 s" and len: "int (length d0) = 4 * w * h"
    and nz: "\<not> zeroMatches bs" and g: "inGrid w h (x, r)"
    and m: "matches bs (data s) (posOf w (x, r))"
    and up: "\<not> matches bs (data s) (posOf w (x, r - 1))"
    and c: "charged bs w h s C"
    and v: "visit bs w x r (posOf w (x, r)) rl rr s = (rl', rr', s')"
  shows "\<exists>C'. charged bs w h s' C'"
proof -
  let ?p = "posOf w (x, r)"
  let ?Z = "zeroed w h s" and ?Z' = "zeroed w h s'"
  from visit_effect[OF v] obtain ls rs where
    d: "data s' = clear4 (data s) ?p"
    and pu: "pushes s' = pushes s + length rs + length ls"
    and ls: "ls = [] \<or> (ls = [(x - 1, r)] \<and> 0 < x \<and> matches bs (data s') (posOf w (x - 1, r)))"
    and rs: "rs = [] \<or> (rs = [(x + 1, r)] \<and> x < w - 1 \<and> matches bs (data s') (posOf w (x + 1, r)))
         \<or> (rs = [(x + 1, r - 1)] \<and> x < w - 1 \<and> matches bs (data s') (posOf w (x + 1, r - 1)))"
    by (auto simp: posOf_simps)
  have Z': "?Z' = insert (x, r) ?Z" by (rule zeroed_visit[OF g v])
  have x: "0 \<le> x" "x < w" and r: "0 \<le> r" "r < h" using g by (simp_all add: inGrid_def)
  have ld: "int (length (data s)) = 4 * w * h" using frame_length[OF f] len by simp
  from c have C: "C \<subseteq> {q. inGrid w h q}" and cC: "card C = pushes s"
    and J: "\<forall>c\<in>C. c \<in> ?Z \<or> (fst c - 1, snd c) \<in> ?Z"
    and K: "\<forall>q\<in>?Z. \<not> matches bs (data s) (posOf w (fst q, snd q - 1))"
    by (simp_all add: charged_def)
  have fin: "finite C" by (rule finite_subset[OF C finite_grid])
  text \<open>What matches after the write matched before it and is not the pixel written.\<close>
  have keep: "matches bs (data s) (posOf w q) \<and> posOf w q \<noteq> ?p" if "matches bs (data s') (posOf w q)" for q
  proof (cases "posOf w q = ?p")
    case True
    with that d matches_cleared[OF g ld, of bs] nz show ?thesis by simp
  next
    case False
    with that d matches_clear4_other[OF False, of bs "data s"] show ?thesis by simp
  qed
  have here: "(x, r) \<notin> ?Z" using zeroed_nomatch[OF f nz] m by blast
  have nl: "(x, r) \<notin> C" if "ls \<noteq> []"
  proof
    assume "(x, r) \<in> C"
    with J here have "(x - 1, r) \<in> ?Z" by auto
    moreover from that ls keep have "matches bs (data s) (posOf w (x - 1, r))" by blast
    ultimately show False using zeroed_nomatch[OF f nz] by blast
  qed
  have nr: "(x + 1, r) \<notin> C" if "rs \<noteq> []"
  proof
    assume "(x + 1, r) \<in> C"
    with J here have z: "(x + 1, r) \<in> ?Z" by auto
    from that rs consider "matches bs (data s') (posOf w (x + 1, r))"
      | "matches bs (data s') (posOf w (x + 1, r - 1))" by blast
    then show False
    proof cases
      case 1
      with keep have "matches bs (data s) (posOf w (x + 1, r))" by blast
      with zeroed_nomatch[OF f nz z] show False by simp
    next
      case 2
      with keep have "matches bs (data s) (posOf w (x + 1, r - 1))" by blast
      with K z show False by auto
    qed
  qed
  define L where "L = (if ls = [] then {} else {(x, r)})"
  define R where "R = (if rs = [] then {} else {(x + 1, r)})"
  have cL: "card L = length ls" using ls by (auto simp: L_def)
  have cR: "card R = length rs" using rs by (auto simp: R_def)
  have dj: "L \<inter> R = {}" "C \<inter> (L \<union> R) = {}"
    using nl nr by (auto simp: L_def R_def)
  have fLR: "finite (L \<union> R)" by (simp add: L_def R_def)
  have "card (C \<union> (L \<union> R)) = card C + card (L \<union> R)"
    using fin fLR dj(2) by (rule card_Un_disjoint)
  also have "card (L \<union> R) = card L + card R"
    using dj(1) by (intro card_Un_disjoint) (simp_all add: L_def R_def)
  finally have card: "card (C \<union> (L \<union> R)) = pushes s'"
    using cC cL cR pu by simp
  have sub: "C \<union> (L \<union> R) \<subseteq> {q. inGrid w h q}"
  proof -
    have "inGrid w h (x + 1, r)" if "rs \<noteq> []"
      using that rs x r by (auto simp: inGrid_def)
    then show ?thesis using C g by (auto simp: L_def R_def)
  qed
  have J': "\<forall>c\<in>C \<union> (L \<union> R). c \<in> ?Z' \<or> (fst c - 1, snd c) \<in> ?Z'"
    using J Z' by (auto simp: L_def R_def split: if_splits)
  have K': "\<not> matches bs (data s') (posOf w (fst q, snd q - 1))" if "q \<in> ?Z'" for q
  proof
    assume a: "matches bs (data s') (posOf w (fst q, snd q - 1))"
    from keep[OF a] have b: "matches bs (data s) (posOf w (fst q, snd q - 1))" by simp
    from that Z' consider "q = (x, r)" | "q \<in> ?Z" by blast
    then show False
    proof cases
      case 1 then show ?thesis using b up by simp
    next
      case 2 then show ?thesis using b K by blast
    qed
  qed
  have "charged bs w h s' (C \<union> (L \<union> R))"
    unfolding charged_def using sub card J' K' by blast
  then show ?thesis ..
qed

lemma row_above_top:
  assumes "0 \<le> x" "x < w" "int (length d) = 4 * w * h"
  shows "\<not> matches bs d (posOf w (x, - 1))"
proof
  assume "matches bs d (posOf w (x, - 1))"
  from matches_inGrid[OF this assms] show False by (simp add: inGrid_def)
qed

lemma charged_scanColumn:
  assumes f: "frame bs w h d0 s" and len: "int (length d0) = 4 * w * h"
    and nz: "\<not> zeroMatches bs" and g: "inGrid w h (x, y)" and c: "charged bs w h s C"
  shows "\<exists>C'. charged bs w h (scanColumn bs w h x y s) C'"
proof -
  let ?I = "\<lambda>r t. frame bs w h d0 t \<and> 0 \<le> r \<and> (\<exists>C. charged bs w h t C) \<and>
                 \<not> matches bs (data t) (posOf w (x, r - 1))"
  have x: "0 \<le> x" "x < w" and y: "0 \<le> y" using g by (simp_all add: inGrid_def)
  show ?thesis
  proof (rule scanColumn_rule[where I = ?I])
    show "0 \<le> y" by (rule y)
    show "\<And>r t l. ?I r (t\<lparr>reads := l\<rparr>) = ?I r t" by simp
    show "\<And>r t. ?I r t \<Longrightarrow> \<exists>C'. charged bs w h t C'" by simp
  next
    fix k assume k: "0 \<le> k" "k = 0 \<or> \<not> matches bs (data s) (posOf w (x, k - 1))"
    have "\<not> matches bs (data s) (posOf w (x, k - 1))"
    proof (cases "k = 0")
      case True
      have "int (length (data s)) = 4 * w * h" using frame_length[OF f] len by simp
      from row_above_top[OF x this] True show ?thesis by simp
    next
      case False with k show ?thesis by simp
    qed
    then show "?I k s" using f k c by blast
  next
    fix r t rl rr rl' rr' t'
    assume i: "?I r t" and r: "r < h" and m: "matches bs (data t) (posOf w (x, r))"
      and v: "visit bs w x r (posOf w (x, r)) rl rr t = (rl', rr', t')"
    have gr: "inGrid w h (x, r)" using x i r by (simp add: inGrid_def)
    from i obtain C1 where ft: "frame bs w h d0 t" and c1: "charged bs w h t C1"
      and up: "\<not> matches bs (data t) (posOf w (x, r - 1))" by blast
    have ft': "frame bs w h d0 t'" by (rule frame_visit[OF ft len gr m v])
    have "(x, r) \<in> zeroed w h t'" using zeroed_visit[OF gr v] by simp
    from zeroed_nomatch[OF ft' nz this] have "\<not> matches bs (data t') (posOf w (x, r + 1 - 1))"
      by simp
    then show "?I (r + 1) t'"
      using ft' charged_visit[OF ft len nz gr m up c1 v] i by simp
  qed
qed

lemma pushes_bound:
  assumes v: "validInput w h d x y tol" and nz: "\<not> zeroMatches (seedBounds d (posOf w (x, y)) tol)"
    and run: "floodFill x y w h d tol = Some t"
  shows "pushes t \<le> nat (w * h)"
proof -
  let ?bs = "seedBounds d (posOf w (x, y)) tol"
  let ?I = "\<lambda>s. frame ?bs w h d s \<and> (\<exists>C. charged ?bs w h s C)"
  have len: "int (length d) = 4 * w * h" and g: "inGrid w h (x, y)"
    using v by (simp_all add: validInput_def)
  have "?I t \<and> pixelStack t = []"
  proof (rule fillLoop_rule[where I = ?I])
    show "fillLoop ?bs w h (initState x y w d) = Some t" using run by (simp add: floodFill_posOf)
    have "charged ?bs w h (initState x y w d) {}"
      by (simp add: charged_def zeroed_def initState_def Let_def)
    then show "?I (initState x y w d)" using frame_initState[OF g] by blast
  next
    fix s a b rest
    assume i: "?I s" and st: "pixelStack s = (a, b) # rest"
    then obtain C where f: "frame ?bs w h d s" and c: "charged ?bs w h s C" by blast
    note fp = frame_pop[OF f st]
    have "charged ?bs w h (s\<lparr>pixelStack := rest\<rparr>) C" using c by (simp add: charged_def)
    from charged_scanColumn[OF fp(1) len nz fp(2) this] frame_scanColumn[OF fp(1) len fp(2)]
    show "?I (scanColumn ?bs w h a b (s\<lparr>pixelStack := rest\<rparr>))" by blast
  qed
  then obtain C where c: "charged ?bs w h t C" by blast
  then have "C \<subseteq> {q. inGrid w h q}" "card C = pushes t" by (simp_all add: charged_def)
  then have "pushes t \<le> card {q. inGrid w h q}"
    using card_mono[OF finite_grid, of C w h] by simp
  also have "\<dots> = nat w * nat h" by (rule card_grid)
  also have "\<dots> = nat (w * h)"
  proof -
    have "0 \<le> w" using g by (simp add: inGrid_def)
    then show ?thesis by (simp add: nat_mult_distrib)
  qed
  finally show ?thesis .
qed

lemma fillLoop_diverges:
  assumes i0: "I s" and ne: "\<And>s. I s \<Longrightarrow> pixelStack s \<noteq> []"
    and step: "\<And>s x y rest. I s \<Longrightarrow> pixelStack s = (x, y) # rest \<Longrightarrow>
                 I (scanColumn bs w h x y (s\<lparr>pixelStack := rest\<rparr>))"
  shows "fillLoop bs w h s = None"
proof (cases "fillLoop bs w h s")
  case (Some t)
  from fillLoop_rule[where I = I, OF Some i0 step] ne show ?thesis by blast
qed simp

lemma zeroMatches_seed:
  assumes v: "validInput w h d x y tol"
  shows "zeroMatches (seedBounds d (posOf w (x, y)) tol) \<longleftrightarrow> 1 \<le> tol \<or> black d w (x, y)"
proof -
  let ?p = "posOf w (x, y)"
  have len: "int (length d) = 4 * w * h" and g: "inGrid w h (x, y)" and tol: "0 \<le> tol"
    using v by (simp_all add: validInput_def)
  from posOf_bounds[OF g] len have r: "0 \<le> ?p" "?p + 3 < int (length d)" by simp_all
  have lo: "a * (1 - tol) \<le> 0 \<longleftrightarrow> a = 0 \<or> 1 \<le> tol" if "0 \<le> a" for a :: rat
    using that by (auto simp: mult_le_0_iff)
  have hi: "0 \<le> a * (1 + tol)" if "0 \<le> a" for a :: rat
    using that tol by simp
  have z: "(of_int (uint c) :: rat) = 0 \<longleftrightarrow> c = 0" for c :: "8 word"
    using unsigned_rat_le_0[of c] unsigned_rat_ge_0[of c] by linarith
  have ch: "channel d ?p = Some (d ! nat ?p)" "channel d (?p + 1) = Some (d ! nat (?p + 1))"
    "channel d (?p + 2) = Some (d ! nat (?p + 2))"
    using r by (simp_all add: channel_def)
  have "zeroMatches (seedBounds d ?p tol) \<longleftrightarrow>
      (d ! nat ?p = 0 \<or> 1 \<le> tol) \<and> (d ! nat (?p + 1) = 0 \<or> 1 \<le> tol) \<and> (d ! nat (?p + 2) = 0 \<or> 1 \<le> tol)"
    unfolding zeroMatches_def matches_def seedBounds_def Let_def ch
    using lo[OF unsigned_rat_ge_0] hi[OF unsigned_rat_ge_0] z
    by (simp add: geq_def leq_def scale_def channel_def)
  also have "\<dots> \<longleftrightarrow> 1 \<le> tol \<or> black d w (x, y)"
    unfolding black_channels ch by auto
  finally show ?thesis .
qed

lemma blackBlack_bounds:
  "seedBounds blackBlack ((0 * 2 + 0) * 4) (1 / 20) =
     \<lparr>rMax = Some 0, gMax = Some 0, bMax = Some 0, rMin = Some 0, gMin = Some 0, bMin = Some 0\<rparr>"
  by (simp add: seedBounds_def scale_def channel_def blackBlack_def)

lemma pingPong_step:
  assumes "pingPong s" "pixelStack s = (x, y) # rest"
  shows "pingPong (scanColumn \<lparr>rMax = Some 0, gMax = Some 0, bMax = Some 0,
            rMin = Some 0, gMin = Some 0, bMin = Some 0\<rparr> 2 1 x y (s\<lparr>pixelStack := rest\<rparr>))"
  using assms unfolding pingPong_def
  by (elim disjE conjE) (simp_all add: run_simps)

section \<open>Runs on the example buffers\<close>

lemma uniform4_eq:
  "uniform4 = [200, 200, 200, 255, 200, 200, 200, 255, 200, 200, 200, 255, 200, 200, 200, 255,
               200, 200, 200, 255, 200, 200, 200, 255, 200, 200, 200, 255, 200, 200, 200, 255,
               200, 200, 200, 255, 200, 200, 200, 255, 200, 200, 200, 255, 200, 200, 200, 255,
               200, 200, 200, 255, 200, 200, 200, 255, 200, 200, 200, 255, 200, 200, 200, 255]"
  by (simp add: uniform4_def gray_def numeral_eq_Suc)

lemma zeros64:
  "replicate 64 (0 :: 8 word) =
     [0, 0, 0, 0, 0, 0, 0, 0, 0, 0, 0, 0, 0, 0, 0, 0, 0, 0, 0, 0, 0, 0, 0, 0, 0, 0, 0, 0, 0, 0, 0, 0,
      0, 0, 0, 0, 0, 0, 0, 0, 0, 0, 0, 0, 0, 0, 0, 0, 0, 0, 0, 0, 0, 0, 0, 0, 0, 0, 0, 0, 0, 0, 0, 0]"
  by (simp add: numeral_eq_Suc)

lemma checker4_eq:
  "checker4 = [200, 200, 200, 255, 0, 0, 255, 255, 200, 200, 200, 255, 0, 0, 255, 255,
               0, 0, 255, 255, 200, 200, 200, 255, 0, 0, 255, 255, 200, 200, 200, 255,
               200, 200, 200, 255, 0, 0, 255, 255, 200, 200, 200, 255, 0, 0, 255, 255,
               0, 0, 255, 255, 200, 200, 200, 255, 0, 0, 255, 255, 200, 200, 200, 255]"
  by (simp add: checker4_def gray_def blue_def)

lemma run_grayBlue:
  "floodFill 0 0 2 1 grayBlue (1 / 20) =
     Some \<lparr>data = [0, 0, 0, 0, 0, 0, 255, 255], pixelStack = [],
           reads = [- 2, - 3, - 4, 6, 5, 4, 2, 1, 0, 2, 1, 0, 2, 1, 0, 2, 1, 0],
           writes = [0], pushes = 0\<rparr>"
  by (simp add: run_simps grayBlue_def)

lemma valid_grayBlue: "validInput 2 1 grayBlue 0 0 (1 / 20)"
  by (simp add: validInput_def inGrid_def grayBlue_def)

lemma run_notch:
  "floodFill 0 0 2 3 notch (1 / 20) =
     Some \<lparr>data = [0, 0, 0, 0, 0, 0, 0, 0, 0, 0, 0, 0, 0, 0, 255, 255, 0, 0, 0, 0, 200, 200, 200, 255],
           pixelStack = [],
           reads = [14, 13, 12, 6, 5, 4, 14, 13, 12, 2, 1, 0, 6, 5, 4, 6, 5, 4, 22, 21, 20, 18, 17, 16,
                    6, 5, 4, 14, 13, 12, 10, 9, 8, 6, 5, 4, 2, 1, 0, 2, 1, 0, 2, 1, 0, 2, 1, 0],
           writes = [4, 16, 8, 0], pushes = 2\<rparr>"
  by (simp add: run_simps notch_def)

lemma run_notchLight_narrow:
  "floodFill 0 0 2 3 notchLight (1 / 20) =
     Some \<lparr>data = [0, 0, 0, 0, 220, 220, 220, 255, 0, 0, 0, 0, 0, 0, 255, 255, 0, 0, 0, 0, 0, 0, 0, 0],
           pixelStack = [],
           reads = [18, 17, 16, 22, 21, 20, 14, 13, 12, 22, 21, 20, 22, 21, 20, 18, 17, 16, 6, 5, 4,
                    14, 13, 12, 10, 9, 8, - 2, - 3, - 4, 6, 5, 4, 2, 1, 0, 2, 1, 0, 2, 1, 0, 2, 1, 0],
           writes = [20, 16, 8, 0], pushes = 1\<rparr>"
  by (simp add: run_simps notchLight_def)

lemma run_notchLight_wide:
  "floodFill 0 0 2 3 notchLight (1 / 5) =
     Some \<lparr>data = [0, 0, 0, 0, 0, 0, 0, 0, 0, 0, 0, 0, 0, 0, 255, 255, 0, 0, 0, 0, 200, 200, 200, 255],
           pixelStack = [],
           reads = [14, 13, 12, 6, 5, 4, 14, 13, 12, 2, 1, 0, 6, 5, 4, 6, 5, 4, 22, 21, 20, 18, 17, 16,
                    6, 5, 4, 14, 13, 12, 10, 9, 8, 6, 5, 4, 2, 1, 0, 2, 1, 0, 2, 1, 0, 2, 1, 0],
           writes = [4, 16, 8, 0], pushes = 2\<rparr>"
  by (simp add: run_simps notchLight_def)






section \<open>The claims\<close>

text \<open>
  C1, as the code behaves. For a valid input with a tolerance below 1 and a seed whose
  red, green and blue are not all 0, the fill returns: the outer loop reaches the empty
  stack, after at most width times height calls of \<^verbatim>\<open>push\<close>.
\<close>

theorem fill_total_bounded:
  assumes "validInput w h d x y tol" "tol < 1" "\<not> black d w (x, y)"
  shows "\<exists>t. floodFill x y w h d tol = Some t \<and> pixelStack t = [] \<and> pushes t \<le> nat (w * h)"
proof -
  have nz: "\<not> zeroMatches (seedBounds d (posOf w (x, y)) tol)"
    using zeroMatches_seed[OF assms(1)] assms(2,3) by simp
  from fill_terminates[OF assms(1) nz] obtain t where t: "floodFill x y w h d tol = Some t" ..
  from linked_floodFill[OF assms(1) t] pushes_bound[OF assms(1) nz t] t show ?thesis by blast
qed

theorem fill_total_bounded_witness:
  "validInput 2 1 grayBlue 0 0 (1 / 20) \<and> (1 / 20 :: rat) < 1 \<and> \<not> black grayBlue 2 (0, 0) \<and>
   (\<exists>t. floodFill 0 0 2 1 grayBlue (1 / 20) = Some t \<and> pixelStack t = [] \<and> pushes t \<le> nat (2 * 1))"
proof -
  have b: "\<not> black grayBlue 2 (0, 0)"
    by (simp add: black_def pixel_def posOf_def channel_def grayBlue_def)
  have l: "(1 / 20 :: rat) < 1" by simp
  from fill_total_bounded[OF valid_grayBlue l b] valid_grayBlue b show ?thesis by simp
qed

text \<open>
  C1 as stated fails. On two opaque black pixels side by side (a valid input) the fill
  from (0, 0) never returns: a zeroed pixel is still within the bounds of a black seed,
  so each of the two pixels pushes the other for ever.
\<close>

theorem black_seed_never_returns:
  "validInput 2 1 blackBlack 0 0 (1 / 20) \<and> floodFill 0 0 2 1 blackBlack (1 / 20) = None"
proof -
  have "pingPong (initState 0 0 2 blackBlack)"
    by (simp add: pingPong_def initState_def blackBlack_def)
  then have "fillLoop \<lparr>rMax = Some 0, gMax = Some 0, bMax = Some 0,
            rMin = Some 0, gMin = Some 0, bMin = Some 0\<rparr> 2 1 (initState 0 0 2 blackBlack) = None"
  proof (rule fillLoop_diverges[where I = pingPong])
    show "\<And>s. pingPong s \<Longrightarrow> pixelStack s \<noteq> []" by (auto simp: pingPong_def)
  qed (rule pingPong_step)
  then have "floodFill 0 0 2 1 blackBlack (1 / 20) = None"
    unfolding floodFill_def blackBlack_bounds .
  moreover have "validInput 2 1 blackBlack 0 0 (1 / 20)"
    by (simp add: validInput_def inGrid_def blackBlack_def)
  ultimately show ?thesis by simp
qed

text \<open>
  C2 fails on the buffer \<open>notch\<close> (two columns, three rows, seed (0, 0), tolerance
  0.05): the pixels (0, 0), (0, 1), (0, 2), (1, 2) all lie within the bounds of the seed
  and each is a 4-neighbour of the one before it, yet (1, 2) still holds
  (200, 200, 200, 255) when the fill returns.
\<close>

theorem notch_pixel_missed:
  "validInput 2 3 notch 0 0 (1 / 20) \<and>
   list_all (\<lambda>q. matches (seedBounds notch (posOf 2 (0, 0)) (1 / 20)) notch (posOf 2 q))
     [(0, 0), (0, 1), (0, 2), (1, 2)] \<and>
   map_option (\<lambda>t. pixel (data t) 2 (1, 2)) (floodFill 0 0 2 3 notch (1 / 20))
     = Some [Some 200, Some 200, Some 200, Some 255]"
  unfolding run_notch
  by (simp add: validInput_def inGrid_def pixel_def posOf_def notch_def matches_def seedBounds_def
      channel_def geq_def leq_def scale_def Let_def)





text \<open>
  C5 fails on the buffer \<open>notchLight\<close> (two columns, three rows, seed (0, 0)): with
  tolerance 0.05 the fill zeroes the pixel (1, 2), with tolerance 0.2 it leaves it at
  (200, 200, 200, 255).
\<close>

theorem wider_tolerance_loses_pixel:
  "map_option (\<lambda>t. pixel (data t) 2 (1, 2)) (floodFill 0 0 2 3 notchLight (1 / 20))
     = Some [Some 0, Some 0, Some 0, Some 0] \<and>
   map_option (\<lambda>t. (1, 2) \<in> zeroed 2 3 t) (floodFill 0 0 2 3 notchLight (1 / 20)) = Some True \<and>
   map_option (\<lambda>t. pixel (data t) 2 (1, 2)) (floodFill 0 0 2 3 notchLight (1 / 5))
     = Some [Some 200, Some 200, Some 200, Some 255] \<and>
   map_option (\<lambda>t. (1, 2) \<in> zeroed 2 3 t) (floodFill 0 0 2 3 notchLight (1 / 5)) = Some False"
  unfolding run_notchLight_narrow run_notchLight_wide
  by (simp add: pixel_def posOf_def channel_def zeroed_def inGrid_def)




text \<open>
  C7, as the code behaves. On the 4 by 4 checkerboard with gray at (0, 0), the fill from
  (0, 0) with tolerance 0.05 returns after zeroing the seed pixel alone: the one write
  is at index 0, and the buffer is unchanged from index 4 on, so the seven other gray
  pixels and the eight blue ones keep their values.
\<close>

theorem scenario_checker_seed_only:
  "map_option (\<lambda>t. (data t, writes t)) (floodFill 0 0 4 4 checker4 (1 / 20))
     = Some ([0, 0, 0, 0] @ drop 4 checker4, [0])"
  unfolding checker4_eq by (simp add: run_simps)

text \<open>
  C7 as stated fails: the gray pixel at (1, 1) still holds (200, 200, 200, 255) when the
  fill returns.
\<close>

theorem scenario_checker_counterexample:
  "map_option (\<lambda>t. pixel (data t) 4 (1, 1)) (floodFill 0 0 4 4 checker4 (1 / 20))
     = Some [Some 200, Some 200, Some 200, Some 255]"
  unfolding checker4_eq by (simp add: run_simps pixel_def posOf_def)

text \<open>
  C8. On the 4 by 4 buffer whose pixels are all (200, 200, 200, 255), the fill from (0, 0)
  with tolerance 0.05 returns, and every channel of every pixel is 0 afterwards.
\<close>

theorem scenario_uniform_all_zero:
  "map_option data (floodFill 0 0 4 4 uniform4 (1 / 20)) = Some (replicate 64 0)"
  unfolding uniform4_eq zeros64 by (simp add: run_simps)

text \<open>
  C9 fails on two pixels side by side, gray then blue, with seed (0, 0) and tolerance
  0.05 (a valid input): the right neighbour does not match, so the fill tests the
  diagonal \<open>(x + 1, y - 1)\<close> in row 0 and reads the buffer at index -4.
\<close>

theorem diagonal_read_out_of_bounds:
  "validInput 2 1 grayBlue 0 0 (1 / 20) \<and>
   map_option (\<lambda>t. - 4 \<in> set (reads t)) (floodFill 0 0 2 1 grayBlue (1 / 20)) = Some True"
  unfolding run_grayBlue using valid_grayBlue by simp

text \<open>
  C10. For a valid input, when the fill returns, every pixel of the canvas holds either
  its original four channels or four zeros.
\<close>

theorem original_or_zero:
  assumes "validInput w h d x y tol" "floodFill x y w h d tol = Some t" "inGrid w h q"
  shows "pixel (data t) w q = pixel d w q \<or> pixel (data t) w q = [Some 0, Some 0, Some 0, Some 0]"
  using frame_pixel[OF frame_floodFill[OF assms(1,2)] assms(3)]
  unfolding pixel_eq pixel_zero by (auto split: if_splits)

theorem original_or_zero_witness:
  "validInput 2 1 grayBlue 0 0 (1 / 20) \<and> inGrid 2 1 (1, 0) \<and>
   (\<exists>t. floodFill 0 0 2 1 grayBlue (1 / 20) = Some t \<and>
        (pixel (data t) 2 (1, 0) = pixel grayBlue 2 (1, 0) \<or>
         pixel (data t) 2 (1, 0) = [Some 0, Some 0, Some 0, Some 0]))"
proof -
  have g: "inGrid 2 1 (1, 0)" by (simp add: inGrid_def)
  from original_or_zero[OF valid_grayBlue run_grayBlue g] valid_grayBlue g run_grayBlue
  show ?thesis by blast
qed

end
